theory Spec2Isabelle
  imports Main "HOL-Library.Word" "HOL-Library.Multiset" "HOL-Library.Signed_Division"
begin

section \<open>Memory Match: the board, its initialisation and the turn loop\<close>

text \<open>
  A shallow embedding of \<^verbatim>\<open>memorymatchgame.c\<close>. The program keeps a grid of cards,
  fills it with shuffled pairs of symbols and then runs one loop that reads two picks per
  turn. The functions below follow the C functions of the same names.

  \<^item> \<^verbatim>\<open>Card board[BOARD_ROWS][BOARD_COLS]\<close> is a C array of arrays, laid out row by row;
    the model is the list of its \<open>R * C\<close> cards in that order, so \<^verbatim>\<open>board[r][c]\<close> is
    element \<open>r * C + c\<close>.
  \<^item> \<^verbatim>\<open>BOARD_ROWS\<close> and \<^verbatim>\<open>BOARD_COLS\<close> are macros (both 4), which the file's header
    comment invites to change; every function takes them as the parameters \<open>R\<close> and \<open>C\<close>.
    Both are array bounds and \<^verbatim>\<open>BOARD_ROWS * BOARD_COLS + 1\<close> is one too, so a program
    that compiles has all three within \<^verbatim>\<open>int\<close>, and the products are computed on \<open>nat\<close>.
  \<^item> \<^verbatim>\<open>rand()\<close> is the stream of the values its future calls return: \<open>g 0\<close> is the next.
  \<^item> What the player types reaches the program through \<^verbatim>\<open>scanf\<close> in \<^verbatim>\<open>pick_card\<close> and
    through the wait for Enter; what \<^verbatim>\<open>time(NULL)\<close> returns is an input as well.
  \<^item> \<^verbatim>\<open>moves\<close> only ever grows, so it is a 32-bit word whose increment wraps;
    \<^verbatim>\<open>pairs_found\<close> never passes \<^verbatim>\<open>total_pairs\<close> and is an \<open>int\<close>.
\<close>

subsection \<open>Data\<close>

record Card =
  symbol :: char
  revealed :: bool
  matched :: bool

definition BOARD_ROWS :: nat where
  "BOARD_ROWS = 4"

definition BOARD_COLS :: nat where
  "BOARD_COLS = 4"

type_synonym rand_source = "nat \<Rightarrow> nat"

text \<open>The lines the program prints, one constructor per \<^verbatim>\<open>printf\<close> (or per call of
  \<^verbatim>\<open>display_board\<close>, whose argument is the grid of characters shown).\<close>

datatype message =
    MsgMustBeEven
  | MsgNotEnoughSymbols
  | MsgWelcome int
  | MsgBoard "string list"
  | MsgPickFirst
  | MsgPickSecond
  | MsgEnterRowCol
  | MsgInvalidInput
  | MsgOutOfRange
  | MsgAlreadyMatched
  | MsgAlreadyRevealed
  | MsgSameCardTwice
  | MsgMatch
  | MsgNoMatch
  | MsgPressEnter
  | MsgCongratulations
  | MsgMoves "32 word"
  | MsgTime int int

text \<open>The two ways the program stops before the game: \<^verbatim>\<open>return 1\<close> in \<^verbatim>\<open>main\<close> for an
  odd number of cells, and \<^verbatim>\<open>exit(1)\<close> in \<^verbatim>\<open>init_board\<close> for too many pairs. \<open>OutOfBounds\<close>
  stands for a shuffle that would index past its buffer, which C leaves undefined.\<close>

datatype abort = OddCellCount | ConfigurationError | OutOfBounds

fun abort_message :: "abort \<Rightarrow> message list" where
  "abort_message OddCellCount = [MsgMustBeEven]"
| "abort_message ConfigurationError = [MsgNotEnoughSymbols]"
| "abort_message OutOfBounds = []"

fun exit_status :: "abort \<Rightarrow> int option" where
  "exit_status OddCellCount = Some 1"
| "exit_status ConfigurationError = Some 1"
| "exit_status OutOfBounds = None"

subsection \<open>The symbol pool\<close>

text \<open>\<^verbatim>\<open>for (char c = lo; c <= hi && pool_idx < (int)sizeof(pool)-1; ++c) pool[pool_idx++] = c;\<close>
  with \<^verbatim>\<open>char pool[128]\<close>. The list is the filled part of \<^verbatim>\<open>pool\<close>, so \<^verbatim>\<open>pool_idx\<close> is its
  length; characters are their codes.\<close>

function add_range :: "nat \<Rightarrow> nat \<Rightarrow> char list \<Rightarrow> char list" where
  "add_range c hi pool =
     (if c \<le> hi \<and> length pool < 128 - 1
      then add_range (Suc c) hi (pool @ [char_of c])
      else pool)"
  by pat_completeness auto
termination
  by (relation "measure (\<lambda>(c, hi, pool). Suc hi - c)") auto

definition symbol_pool :: "char list" where
  "symbol_pool =
     add_range (of_char (CHR ''0'')) (of_char (CHR ''9''))
       (add_range (of_char (CHR ''a'')) (of_char (CHR ''z''))
          (add_range (of_char (CHR ''A'')) (of_char (CHR ''Z'')) []))"

subsection \<open>Shuffling\<close>

text \<open>\<^verbatim>\<open>char tmp = symbols[i]; symbols[i] = symbols[j]; symbols[j] = tmp;\<close>\<close>

definition swap :: "nat \<Rightarrow> nat \<Rightarrow> 'a list \<Rightarrow> 'a list" where
  "swap i j xs = (xs[i := xs ! j])[j := xs ! i]"

text \<open>The body of \<^verbatim>\<open>for (int i = count - 1; i > 0; --i)\<close>, from a given \<open>i\<close> on.\<close>

fun shuffle_loop :: "nat \<Rightarrow> rand_source \<Rightarrow> 'a list \<Rightarrow> 'a list \<times> rand_source" where
  "shuffle_loop 0 g xs = (xs, g)"
| "shuffle_loop (Suc i) g xs =
     (let j = g 0 mod (Suc i + 1)
      in shuffle_loop i (\<lambda>k. g (Suc k)) (swap (Suc i) j xs))"

text \<open>The indices the loop swaps, in the order of its iterations: the pair \<open>(i, j)\<close> of
  each pass, with \<open>j\<close> as the loop computes it.\<close>

fun shuffle_swaps :: "nat \<Rightarrow> rand_source \<Rightarrow> (nat \<times> nat) list" where
  "shuffle_swaps 0 g = []"
| "shuffle_swaps (Suc i) g =
     (Suc i, g 0 mod (Suc i + 1)) # shuffle_swaps i (\<lambda>k. g (Suc k))"

text \<open>\<^verbatim>\<open>void shuffle_symbols(char *symbols, int count)\<close>. The loop reads and writes
  \<^verbatim>\<open>symbols[count - 1]\<close> as soon as it runs once, so a buffer shorter than \<^verbatim>\<open>count\<close> (here \<open>cnt\<close>) is
  an access out of bounds.\<close>

definition shuffle_symbols ::
  "'a list \<Rightarrow> int \<Rightarrow> rand_source \<Rightarrow> ('a list \<times> rand_source) option" where
  "shuffle_symbols symbols cnt g =
     (if 0 < cnt - 1 \<and> length symbols < nat cnt then None
      else Some (shuffle_loop (nat (cnt - 1)) g symbols))"

subsection \<open>Initialising the board\<close>

text \<open>\<^verbatim>\<open>for (int i = 0; i < pair_count; ++i) { symbols[idx++] = pool[i]; symbols[idx++] = pool[i]; }\<close>\<close>

function fill_pairs :: "char list \<Rightarrow> nat \<Rightarrow> nat \<Rightarrow> nat \<Rightarrow> char list \<Rightarrow> char list" where
  "fill_pairs pool pair_count i idx symbols =
     (if i < pair_count
      then fill_pairs pool pair_count (Suc i) (idx + 2)
             ((symbols[idx := pool ! i])[Suc idx := pool ! i])
      else symbols)"
  by pat_completeness auto
termination
  by (relation "measure (\<lambda>(pool, pair_count, i, idx, symbols). pair_count - i)") auto

text \<open>The two nested loops that fill the board. \<^verbatim>\<open>idx\<close> is incremented once per cell, in
  the order of the cells, so at cell \<open>(r, c)\<close> it is \<open>r * C + c\<close>.\<close>

definition fill_board :: "nat \<Rightarrow> nat \<Rightarrow> char list \<Rightarrow> Card list" where
  "fill_board R C symbols =
     concat (map (\<lambda>r. map (\<lambda>c. \<lparr>symbol = symbols ! (r * C + c),
                                  revealed = False, matched = False\<rparr>) [0..<C]) [0..<R])"

text \<open>\<^verbatim>\<open>init_board\<close>. The array \<^verbatim>\<open>symbols\<close> has \<open>R * C + 1\<close> elements and starts with
  whatever the stack holds: \<open>junk k\<close> is the initial value of \<^verbatim>\<open>symbols[k]\<close>.\<close>

definition init_board ::
  "nat \<Rightarrow> nat \<Rightarrow> (nat \<Rightarrow> char) \<Rightarrow> rand_source \<Rightarrow> abort + (Card list \<times> rand_source)" where
  "init_board R C junk g =
     (let pool = symbol_pool;
          pool_idx = length pool;
          pair_count = (R * C) div 2
      in if pair_count > pool_idx then Inl ConfigurationError
         else
           let symbols = fill_pairs pool pair_count 0 0 (map junk [0..<R * C + 1])
           in case shuffle_symbols symbols (int (R * C)) g of
                None \<Rightarrow> Inl OutOfBounds
              | Some (shuffled, g') \<Rightarrow> Inr (fill_board R C shuffled, g'))"

subsection \<open>Showing the board and reading a pick\<close>

text \<open>\<^verbatim>\<open>display_board\<close>: the character shown for each cell, row by row.\<close>

definition display_board :: "nat \<Rightarrow> nat \<Rightarrow> Card list \<Rightarrow> string list" where
  "display_board R C board =
     map (\<lambda>r. map (\<lambda>c. if matched (board ! (r * C + c)) \<or> revealed (board ! (r * C + c))
                         then symbol (board ! (r * C + c)) else CHR ''*'') [0..<C]) [0..<R]"

text \<open>What \<^verbatim>\<open>scanf("%d %d", &r, &c)\<close> delivers: two integers, or a count other than 2
  (also at the end of the input).\<close>

datatype scan = Scanned int int | ScanFailed

text \<open>\<^verbatim>\<open>pick_card\<close>: the message of the check that rejects the pick, or the 0-based
  row and column.\<close>

definition pick_card :: "nat \<Rightarrow> nat \<Rightarrow> Card list \<Rightarrow> scan \<Rightarrow> message + (nat \<times> nat)" where
  "pick_card R C board sc =
     (case sc of
        ScanFailed \<Rightarrow> Inl MsgInvalidInput
      | Scanned r c \<Rightarrow>
          if r < 1 \<or> r > int R \<or> c < 1 \<or> c > int C then Inl MsgOutOfRange
          else
            let r' = nat (r - 1); c' = nat (c - 1)
            in if matched (board ! (r' * C + c')) then Inl MsgAlreadyMatched
               else if revealed (board ! (r' * C + c')) then Inl MsgAlreadyRevealed
               else Inr (r', c'))"

subsection \<open>The turn loop\<close>

text \<open>Where the program waits: in the first or the second \<^verbatim>\<open>pick_card\<close> of an iteration
  (the second knows \<^verbatim>\<open>r1\<close>, \<^verbatim>\<open>c1\<close>), at ``Press Enter to continue'' (with all four
  coordinates), after the loop before the clock is read, and after \<^verbatim>\<open>return 0\<close>.\<close>

datatype phase =
    AwaitingFirstPick
  | AwaitingSecondPick nat nat
  | AwaitingAck nat nat nat nat
  | Won
  | Exited int

record game =
  board :: "Card list"
  pairs_found :: int
  moves :: "32 word"
  start :: int
  phase :: phase

datatype event = Pick scan | Ack | Clock int

definition total_pairs :: "nat \<Rightarrow> nat \<Rightarrow> int" where
  "total_pairs R C = int ((R * C) div 2)"

text \<open>\<^verbatim>\<open>board[r][c].revealed = v\<close> and \<^verbatim>\<open>board[r][c].matched = v\<close>, at the cell's index. The
  coordinates \<^verbatim>\<open>main\<close> writes at come out of \<^verbatim>\<open>pick_card\<close>, which has checked them against the
  bounds; \<open>game_inv\<close> below records that they stay within the board.\<close>

definition set_revealed :: "nat \<Rightarrow> bool \<Rightarrow> Card list \<Rightarrow> Card list" where
  "set_revealed i v b = b[i := (b ! i)\<lparr>revealed := v\<rparr>]"

definition set_matched :: "nat \<Rightarrow> bool \<Rightarrow> Card list \<Rightarrow> Card list" where
  "set_matched i v b = b[i := (b ! i)\<lparr>matched := v\<rparr>]"

text \<open>The test \<^verbatim>\<open>while (pairs_found < total_pairs)\<close> and, when it holds, what is printed
  up to the first \<^verbatim>\<open>scanf\<close>. Every \<^verbatim>\<open>continue\<close> and the end of the body come here.\<close>

definition loop_head :: "nat \<Rightarrow> nat \<Rightarrow> game \<Rightarrow> game \<times> message list" where
  "loop_head R C s =
     (if pairs_found s < total_pairs R C
      then (s\<lparr>phase := AwaitingFirstPick\<rparr>,
            [MsgBoard (display_board R C (board s)), MsgPickFirst, MsgEnterRowCol])
      else (s\<lparr>phase := Won\<rparr>, []))"

text \<open>\<^verbatim>\<open>int seconds = (int) difftime(end, start);\<close> Both times are whole seconds, so
  \<^verbatim>\<open>difftime\<close> returns their difference. The conversion to the 32-bit \<^verbatim>\<open>int\<close> gives that
  difference when it is within \<^verbatim>\<open>int\<close>; outside, C leaves the conversion undefined, and
  the model has no value for it.\<close>

definition elapsed_seconds :: "int \<Rightarrow> int \<Rightarrow> int option" where
  "elapsed_seconds start_time end_time =
     (let d = end_time - start_time
      in if - (2 ^ 31) \<le> d \<and> d < 2 ^ 31 then Some d else None)"

text \<open>The lines after the loop, printed once \<^verbatim>\<open>seconds\<close> has a value. \<^verbatim>\<open>/\<close> and \<^verbatim>\<open>%\<close> on
  \<^verbatim>\<open>int\<close> truncate towards zero.\<close>

definition final_report :: "game \<Rightarrow> int \<Rightarrow> message list option" where
  "final_report s end_time =
     (case elapsed_seconds (start s) end_time of
        None \<Rightarrow> None
      | Some seconds \<Rightarrow>
          Some [MsgCongratulations, MsgMoves (moves s),
                MsgTime (seconds sdiv 60) (seconds smod 60)])"

text \<open>One input and what the program does with it until it waits again: the new state and
  the lines printed. \<open>None\<close>: the program is not waiting for this kind of input, or, for
  the clock read after the loop, the elapsed time has no value as an \<^verbatim>\<open>int\<close>.\<close>

definition step :: "nat \<Rightarrow> nat \<Rightarrow> game \<Rightarrow> event \<Rightarrow> (game \<times> message list) option" where
  "step R C s e =
     (case (phase s, e) of
        (AwaitingFirstPick, Pick sc) \<Rightarrow>
          (case pick_card R C (board s) sc of
             Inl msg \<Rightarrow>
               (let (s', out) = loop_head R C s in Some (s', msg # out))
           | Inr (r1, c1) \<Rightarrow>
               (let b = set_revealed (r1 * C + c1) True (board s)
                in Some (s\<lparr>board := b, phase := AwaitingSecondPick r1 c1\<rparr>,
                         [MsgBoard (display_board R C b), MsgPickSecond, MsgEnterRowCol])))
      | (AwaitingSecondPick r1 c1, Pick sc) \<Rightarrow>
          (case pick_card R C (board s) sc of
             Inl msg \<Rightarrow>
               (let (s', out) =
                      loop_head R C (s\<lparr>board := set_revealed (r1 * C + c1) False (board s)\<rparr>)
                in Some (s', msg # out))
           | Inr (r2, c2) \<Rightarrow>
               if r1 = r2 \<and> c1 = c2 then
                 (let (s', out) =
                        loop_head R C (s\<lparr>board := set_revealed (r1 * C + c1) False (board s)\<rparr>)
                  in Some (s', MsgSameCardTwice # out))
               else
                 (let b = set_revealed (r2 * C + c2) True (board s);
                      m = moves s + 1
                  in if symbol (b ! (r1 * C + c1)) = symbol (b ! (r2 * C + c2)) then
                       (let (s', out) =
                              loop_head R C
                                (s\<lparr>board := set_matched (r2 * C + c2) True
                                              (set_matched (r1 * C + c1) True b),
                                   pairs_found := pairs_found s + 1,
                                   moves := m\<rparr>)
                        in Some (s', MsgBoard (display_board R C b) # MsgMatch # out))
                     else
                       Some (s\<lparr>board := b, moves := m, phase := AwaitingAck r1 c1 r2 c2\<rparr>,
                             [MsgBoard (display_board R C b), MsgNoMatch, MsgPressEnter])))
      | (AwaitingAck r1 c1 r2 c2, Ack) \<Rightarrow>
          (let (s', out) =
                 loop_head R C
                   (s\<lparr>board := set_revealed (r2 * C + c2) False
                                 (set_revealed (r1 * C + c1) False (board s))\<rparr>)
           in Some (s', out))
      | (Won, Clock t) \<Rightarrow>
          (case final_report s t of
             None \<Rightarrow> None
           | Some out \<Rightarrow> Some (s\<lparr>phase := Exited 0\<rparr>, out))
      | _ \<Rightarrow> None)"

text \<open>A sequence of inputs, from a state on; the lines printed are collected.\<close>

fun run :: "nat \<Rightarrow> nat \<Rightarrow> game \<Rightarrow> event list \<Rightarrow> (game \<times> message list) option" where
  "run R C s [] = Some (s, [])"
| "run R C s (e # es) =
     (case step R C s e of
        None \<Rightarrow> None
      | Some (s', out) \<Rightarrow>
          (case run R C s' es of
             None \<Rightarrow> None
           | Some (s'', out') \<Rightarrow> Some (s'', out @ out')))"

text \<open>\<^verbatim>\<open>main\<close> up to the first \<^verbatim>\<open>scanf\<close>: the parity check, \<^verbatim>\<open>init_board\<close>, the welcome
  lines, the clock read into \<^verbatim>\<open>start\<close> (the value \<open>t0\<close>) and the first pass through the
  loop's test.\<close>

definition main_start ::
  "nat \<Rightarrow> nat \<Rightarrow> (nat \<Rightarrow> char) \<Rightarrow> rand_source \<Rightarrow> int \<Rightarrow> abort + (game \<times> message list)" where
  "main_start R C junk g t0 =
     (if (R * C) mod 2 \<noteq> 0 then Inl OddCellCount
      else
        case init_board R C junk g of
          Inl a \<Rightarrow> Inl a
        | Inr (b, g') \<Rightarrow>
            (let (s, out) =
                   loop_head R C
                     \<lparr>board = b, pairs_found = 0, moves = 0, start = t0,
                      phase = AwaitingFirstPick\<rparr>
             in Inr (s, MsgWelcome (total_pairs R C) # out)))"

text \<open>The cells that are open: shown for this turn and not yet matched.\<close>

definition open_count :: "Card list \<Rightarrow> nat" where
  "open_count b = length (filter (\<lambda>x. revealed x \<and> \<not> matched x) b)"

subsection \<open>Invariants of the turn loop\<close>

text \<open>The indices of the open cells, and ``every matched card is also revealed''.\<close>

definition open_cells :: "Card list \<Rightarrow> nat set" where
  "open_cells b = {i. i < length b \<and> revealed (b ! i) \<and> \<not> matched (b ! i)}"

definition matched_shown :: "Card list \<Rightarrow> bool" where
  "matched_shown b \<longleftrightarrow> (\<forall>i < length b. matched (b ! i) \<longrightarrow> revealed (b ! i))"

text \<open>What holds whenever the program waits: the board has \<open>R * C\<close> cards, matched cards
  are revealed, and the open cells are exactly the picks of the running turn.\<close>

definition game_inv :: "nat \<Rightarrow> nat \<Rightarrow> game \<Rightarrow> bool" where
  "game_inv R C s \<longleftrightarrow>
     length (board s) = R * C \<and>
     matched_shown (board s) \<and>
     (case phase s of
        AwaitingFirstPick \<Rightarrow>
          open_cells (board s) = {} \<and> pairs_found s < total_pairs R C
      | AwaitingSecondPick r1 c1 \<Rightarrow>
          r1 < R \<and> c1 < C \<and> open_cells (board s) = {r1 * C + c1} \<and>
          pairs_found s < total_pairs R C
      | AwaitingAck r1 c1 r2 c2 \<Rightarrow>
          r1 < R \<and> c1 < C \<and> r2 < R \<and> c2 < C \<and> r1 * C + c1 \<noteq> r2 * C + c2 \<and>
          open_cells (board s) = {r1 * C + c1, r2 * C + c2} \<and>
          pairs_found s < total_pairs R C
      | Won \<Rightarrow> open_cells (board s) = {} \<and> pairs_found s = total_pairs R C
      | Exited k \<Rightarrow> open_cells (board s) = {} \<and> pairs_found s = total_pairs R C \<and> k = 0)"

subsection \<open>Completed attempts\<close>

text \<open>An input completes a two-card attempt when the program waits for the second pick,
  \<^verbatim>\<open>pick_card\<close> accepts the input, and the coordinate is not that of the first pick: the
  inputs after which \<^verbatim>\<open>main\<close> reaches \<^verbatim>\<open>moves++\<close>.\<close>

definition completes_attempt :: "nat \<Rightarrow> nat \<Rightarrow> game \<Rightarrow> event \<Rightarrow> bool" where
  "completes_attempt R C s e =
     (case (phase s, e) of
        (AwaitingSecondPick r1 c1, Pick sc) \<Rightarrow>
          (case pick_card R C (board s) sc of
             Inl msg \<Rightarrow> False
           | Inr (r2, c2) \<Rightarrow> \<not> (r1 = r2 \<and> c1 = c2))
      | _ \<Rightarrow> False)"

section \<open>Lemmas\<close>

subsection \<open>Pool, shuffle and initialisation\<close>

lemma symbol_pool_value:
  "symbol_pool = ''ABCDEFGHIJKLMNOPQRSTUVWXYZabcdefghijklmnopqrstuvwxyz0123456789''"
  by code_simp

lemma length_symbol_pool: "length symbol_pool = 62"
  by (simp add: symbol_pool_value)

lemma distinct_symbol_pool: "distinct symbol_pool"
  by (simp add: symbol_pool_value)

lemma length_swap [simp]: "length (swap i j xs) = length xs"
  by (simp add: swap_def)

lemma mset_swap_list: "i < length xs \<Longrightarrow> j < length xs \<Longrightarrow> mset (swap i j xs) = mset xs"
  unfolding swap_def by (rule mset_swap)

lemma take_swap: "i < n \<Longrightarrow> j < n \<Longrightarrow> take n (swap i j xs) = swap i j (take n xs)"
  by (simp add: swap_def take_update_swap)

lemma length_shuffle_loop [simp]: "length (fst (shuffle_loop i g xs)) = length xs"
  by (induction i arbitrary: g xs) (simp_all add: Let_def)

lemma shuffle_loop_take_mset:
  "i \<le> n - 1 \<Longrightarrow> n \<le> length xs \<Longrightarrow>
   mset (take n (fst (shuffle_loop i g xs))) = mset (take n xs)"
proof (induction i arbitrary: g xs)
  case 0
  then show ?case by simp
next
  case (Suc i)
  let ?j = "g 0 mod (Suc i + 1)"
  have j: "?j < n" and i: "Suc i < n"
    using Suc.prems(1) by (auto intro: less_le_trans [OF mod_less_divisor])
  have "mset (take n (fst (shuffle_loop i (\<lambda>k. g (Suc k)) (swap (Suc i) ?j xs))))
        = mset (take n (swap (Suc i) ?j xs))"
    using Suc.prems by (intro Suc.IH) simp_all
  also have "\<dots> = mset (swap (Suc i) ?j (take n xs))"
    using i j by (simp add: take_swap)
  also have "\<dots> = mset (take n xs)"
    using i j Suc.prems(2) by (intro mset_swap_list) simp_all
  finally show ?case by (simp add: Let_def)
qed

lemma shuffle_loop_mset:
  "i < length xs \<Longrightarrow> mset (fst (shuffle_loop i g xs)) = mset xs"
  using shuffle_loop_take_mset [of i "length xs" xs g] by simp

lemma shuffle_loop_swaps:
  "shuffle_loop i g xs =
     (foldl (\<lambda>zs (a, b). swap a b zs) xs (shuffle_swaps i g), \<lambda>k. g (k + i))"
  by (induction i arbitrary: g xs) (simp_all add: Let_def)

lemma shuffle_swaps_fst: "map fst (shuffle_swaps i g) = rev [1..<Suc i]"
  by (induction i arbitrary: g) simp_all

lemma shuffle_swaps_bound: "(a, b) \<in> set (shuffle_swaps i g) \<Longrightarrow> b \<le> a \<and> 1 \<le> a \<and> a \<le> i"
proof (induction i arbitrary: g)
  case 0
  then show ?case by simp
next
  case (Suc i)
  have "g 0 mod (Suc i + 1) \<le> Suc i"
    using mod_less_divisor [of "Suc i + 1" "g 0"] by simp
  with Suc show ?case by fastforce
qed

lemma fill_pairs_eq:
  "idx + 2 * (pc - i) \<le> length symbols \<Longrightarrow> pc \<le> length pool \<Longrightarrow>
   fill_pairs pool pc i idx symbols =
     take idx symbols @ concat (map (\<lambda>c. [c, c]) (take (pc - i) (drop i pool)))
       @ drop (idx + 2 * (pc - i)) symbols"
proof (induction pool pc i idx symbols rule: fill_pairs.induct)
  case (1 pool pc i idx symbols)
  show ?case
  proof (cases "i < pc")
    case False
    then show ?thesis by simp
  next
    case True
    let ?p = "pool ! i"
    let ?s = "(symbols[idx := ?p])[Suc idx := ?p]"
    have len: "Suc idx < length symbols" using True "1.prems"(1) by linarith
    have d: "take (pc - i) (drop i pool) = ?p # take (pc - Suc i) (drop (Suc i) pool)"
      using True "1.prems"(2)
      by (metis Cons_nth_drop_Suc Suc_diff_Suc less_le_trans take_Suc_Cons)
    have t: "take (idx + 2) ?s = take idx symbols @ [?p, ?p]"
      using len by (simp add: list_eq_iff_nth_eq nth_append nth_list_update less_Suc_eq)
    have a: "idx + 2 + 2 * (pc - Suc i) = idx + 2 * (pc - i)"
      using True by linarith
    have "idx < idx + 2 * (pc - i)" "Suc idx < idx + 2 * (pc - i)"
      using True by linarith+
    then have r: "drop (idx + 2 + 2 * (pc - Suc i)) ?s = drop (idx + 2 * (pc - i)) symbols"
      by (simp only: a drop_update_cancel)
    have "fill_pairs pool pc i idx symbols = fill_pairs pool pc (Suc i) (idx + 2) ?s"
      using True by simp
    also have "\<dots> = take (idx + 2) ?s
         @ concat (map (\<lambda>c. [c, c]) (take (pc - Suc i) (drop (Suc i) pool)))
         @ drop (idx + 2 + 2 * (pc - Suc i)) ?s"
      using True "1.prems" by (intro "1.IH") simp_all
    finally show ?thesis
      by (simp only: t r d) simp
  qed
qed

lemma fill_board_eq:
  "fill_board R C symbols =
     map (\<lambda>k. \<lparr>symbol = symbols ! k, revealed = False, matched = False\<rparr>) [0..<R * C]"
proof -
  have "concat (map (\<lambda>r. map (\<lambda>c. f (r * C + c)) [0..<C]) [0..<R]) = map f [0..<R * C]"
    for f :: "nat \<Rightarrow> Card"
  proof (induction R)
    case 0
    then show ?case by simp
  next
    case (Suc R)
    have "map (\<lambda>c. f (R * C + c)) [0..<C] = map f (map (\<lambda>c. c + R * C) [0..<C])"
      by (simp add: add.commute)
    also have "\<dots> = map f [R * C..<C + R * C]"
      by (simp only: map_add_upt)
    finally have "map (\<lambda>c. f (R * C + c)) [0..<C] = map f [R * C..<C + R * C]" .
    moreover have "[0..<C + R * C] = [0..<R * C] @ [R * C..<C + R * C]"
      by (metis add.commute le_add1 upt_add_eq_append zero_le)
    ultimately show ?case using Suc by simp
  qed
  then show ?thesis by (simp add: fill_board_def)
qed

lemma length_doubled: "length (concat (map (\<lambda>c. [c, c]) xs)) = 2 * length xs"
  by (induction xs) simp_all

lemma mset_doubled: "mset (concat (map (\<lambda>c. [c, c]) xs)) = mset xs + mset xs"
  by (induction xs) simp_all

lemma init_board_symbols:
  assumes "even (R * C)" "(R * C) div 2 \<le> length symbol_pool"
  shows "\<exists>b g'. init_board R C junk g = Inr (b, g')
           \<and> b = map (\<lambda>k. \<lparr>symbol = map symbol b ! k, revealed = False, matched = False\<rparr>) [0..<R * C]
           \<and> length b = R * C
           \<and> mset (map symbol b) =
               mset (take ((R * C) div 2) symbol_pool) + mset (take ((R * C) div 2) symbol_pool)"
proof -
  define pc where "pc = (R * C) div 2"
  define n where "n = R * C"
  define dbl where "dbl = concat (map (\<lambda>c. [c, c]) (take pc symbol_pool))"
  define s0 where "s0 = map junk [0..<n + 1]"
  define s where "s = fill_pairs symbol_pool pc 0 0 s0"
  have two: "2 * pc = n" using assms(1) by (simp add: pc_def n_def)
  have pcl: "pc \<le> length symbol_pool" using assms(2) by (simp add: pc_def)
  have ldbl: "length dbl = n"
    using pcl two by (simp add: dbl_def length_doubled)
  have "s = take 0 s0 @ concat (map (\<lambda>c. [c, c]) (take (pc - 0) (drop 0 symbol_pool)))
              @ drop (0 + 2 * (pc - 0)) s0"
    unfolding s_def using pcl two by (intro fill_pairs_eq) (simp_all add: s0_def)
  then have s: "s = dbl @ drop n s0"
    using two by (simp add: dbl_def)
  have len: "length s = n + 1"
    by (simp add: s ldbl) (simp add: s0_def)
  have tk: "take n s = dbl"
    by (simp add: s ldbl)
  define sh where "sh = shuffle_loop (n - 1) g s"
  have shs: "shuffle_symbols s (int n) g = Some sh"
    using len by (simp add: shuffle_symbols_def sh_def nat_diff_distrib')
  have "mset (take n (fst sh)) = mset (take n s)"
    unfolding sh_def using len by (intro shuffle_loop_take_mset) simp_all
  then have m: "mset (take n (fst sh)) = mset (take pc symbol_pool) + mset (take pc symbol_pool)"
    by (simp add: tk dbl_def mset_doubled)
  have lsh: "length (fst sh) = n + 1"
    by (simp add: sh_def len)
  define b where "b = fill_board R C (fst sh)"
  have lb: "length b = n"
    by (simp add: b_def fill_board_eq n_def)
  have b': "b = map (\<lambda>k. \<lparr>symbol = fst sh ! k, revealed = False, matched = False\<rparr>) [0..<R * C]"
    by (simp add: b_def fill_board_eq)
  have nth: "map symbol b ! k = fst sh ! k" if "k < R * C" for k
  proof -
    have "k < length b" using that lb by (simp add: n_def)
    then have "map symbol b ! k = symbol (b ! k)" by (rule nth_map)
    also have "b ! k = \<lparr>symbol = fst sh ! k, revealed = False, matched = False\<rparr>"
      using that by (subst b') simp
    finally show ?thesis by simp
  qed
  have sym: "map symbol b = take n (fst sh)"
  proof (rule nth_equalityI)
    show "length (map symbol b) = length (take n (fst sh))"
      by (simp add: lb lsh)
  next
    fix i assume "i < length (map symbol b)"
    then have i: "i < n" by (simp add: lb)
    then have "take n (fst sh) ! i = fst sh ! i" by simp
    moreover have "map symbol b ! i = fst sh ! i"
      using i by (intro nth) (simp add: n_def)
    ultimately show "map symbol b ! i = take n (fst sh) ! i" by simp
  qed
  have "map (\<lambda>k. \<lparr>symbol = map symbol b ! k, revealed = False, matched = False\<rparr>) [0..<R * C]
        = map (\<lambda>k. \<lparr>symbol = fst sh ! k, revealed = False, matched = False\<rparr>) [0..<R * C]"
  proof (rule map_cong [OF refl])
    fix k assume "k \<in> set [0..<R * C]"
    then have "k < R * C" by simp
    then have "map symbol b ! k = fst sh ! k" by (rule nth)
    then show "\<lparr>symbol = map symbol b ! k, revealed = False, matched = False\<rparr>
               = \<lparr>symbol = fst sh ! k, revealed = False, matched = False\<rparr>"
      by (simp only:)
  qed
  with b' have beq: "b = map (\<lambda>k. \<lparr>symbol = map symbol b ! k, revealed = False, matched = False\<rparr>) [0..<R * C]"
    by (simp only:)
  have ib: "init_board R C junk g =
        (if pc > length symbol_pool then Inl ConfigurationError
         else case shuffle_symbols s (int n) g of
                None \<Rightarrow> Inl OutOfBounds
              | Some (shuffled, g') \<Rightarrow> Inr (fill_board R C shuffled, g'))"
    by (simp only: init_board_def Let_def pc_def n_def s_def s0_def)
  have "init_board R C junk g = Inr (b, snd sh)"
    using pcl by (simp add: ib shs b_def split_beta)
  then have ib': "init_board R C junk g = Inr (b, snd sh)" .
  have lb': "length b = R * C" using lb by (simp only: n_def)
  have "mset (map symbol b) = mset (take pc symbol_pool) + mset (take pc symbol_pool)"
    by (simp only: sym m)
  then have m': "mset (map symbol b) =
      mset (take ((R * C) div 2) symbol_pool) + mset (take ((R * C) div 2) symbol_pool)"
    by (simp only: pc_def)
  from ib' beq lb' m' show ?thesis by blast
qed

subsection \<open>Cells and single steps\<close>

lemma cell_lt: "r < R \<Longrightarrow> c < C \<Longrightarrow> r * C + c < R * (C::nat)"
proof -
  assume r: "r < R" and c: "c < C"
  have "r * C + c < r * C + C" using c by simp
  also have "\<dots> = Suc r * C" by simp
  also have "\<dots> \<le> R * C" using r by (intro mult_le_mono1) simp
  finally show ?thesis .
qed

lemma cell_inj:
  assumes "c1 < C" "c2 < (C::nat)"
  shows "(r1 * C + c1 = r2 * C + c2) = (r1 = r2 \<and> c1 = c2)"
proof
  assume eq: "r1 * C + c1 = r2 * C + c2"
  have "(r1 * C + c1) div C = r1" "(r1 * C + c1) mod C = c1"
    "(r2 * C + c2) div C = r2" "(r2 * C + c2) mod C = c2"
    using assms by simp_all
  with eq show "r1 = r2 \<and> c1 = c2" by metis
qed simp

lemma pick_card_Inr:
  "pick_card R C b sc = Inr (r, c) \<Longrightarrow>
     r < R \<and> c < C \<and> \<not> matched (b ! (r * C + c)) \<and> \<not> revealed (b ! (r * C + c))
     \<and> sc = Scanned (int r + 1) (int c + 1)"
  by (auto simp: pick_card_def Let_def split: scan.splits if_splits)

lemma length_set_revealed [simp]: "length (set_revealed i v b) = length b"
  by (simp add: set_revealed_def)

lemma length_set_matched [simp]: "length (set_matched i v b) = length b"
  by (simp add: set_matched_def)

lemma nth_set_revealed:
  "k < length b \<Longrightarrow>
   set_revealed i v b ! k = (if k = i then (b ! k)\<lparr>revealed := v\<rparr> else b ! k)"
  by (simp add: set_revealed_def nth_list_update)

lemma nth_set_matched:
  "k < length b \<Longrightarrow>
   set_matched i v b ! k = (if k = i then (b ! k)\<lparr>matched := v\<rparr> else b ! k)"
  by (simp add: set_matched_def nth_list_update)

lemma open_cells_set_revealed:
  "i < length b \<Longrightarrow>
   open_cells (set_revealed i v b) =
     (if v \<and> \<not> matched (b ! i) then insert i (open_cells b) else open_cells b - {i})"
  by (auto simp: open_cells_def nth_set_revealed split: if_splits)

lemma open_cells_set_matched:
  "i < length b \<Longrightarrow> open_cells (set_matched i True b) = open_cells b - {i}"
  by (auto simp: open_cells_def nth_set_matched split: if_splits)

lemma map_symbol_set_revealed [simp]: "map symbol (set_revealed i v b) = map symbol b"
  by (rule nth_equalityI) (simp_all add: nth_set_revealed)

lemma map_symbol_set_matched [simp]: "map symbol (set_matched i v b) = map symbol b"
  by (rule nth_equalityI) (simp_all add: nth_set_matched)

lemma open_count_card: "open_count b = card (open_cells b)"
  by (simp add: open_count_def open_cells_def length_filter_conv_card)

lemma step_first:
  "phase s = AwaitingFirstPick \<Longrightarrow>
   step R C s (Pick sc) =
     (case pick_card R C (board s) sc of
        Inl msg \<Rightarrow> Some (fst (loop_head R C s), msg # snd (loop_head R C s))
      | Inr (r1, c1) \<Rightarrow>
          Some (s\<lparr>board := set_revealed (r1 * C + c1) True (board s),
                   phase := AwaitingSecondPick r1 c1\<rparr>,
                [MsgBoard (display_board R C (set_revealed (r1 * C + c1) True (board s))),
                 MsgPickSecond, MsgEnterRowCol]))"
  by (simp add: step_def Let_def split_beta split: sum.splits)

lemma step_second:
  "phase s = AwaitingSecondPick r1 c1 \<Longrightarrow>
   step R C s (Pick sc) =
     (case pick_card R C (board s) sc of
        Inl msg \<Rightarrow>
          Some (fst (loop_head R C (s\<lparr>board := set_revealed (r1 * C + c1) False (board s)\<rparr>)),
                msg # snd (loop_head R C (s\<lparr>board := set_revealed (r1 * C + c1) False (board s)\<rparr>)))
      | Inr (r2, c2) \<Rightarrow>
          if r1 = r2 \<and> c1 = c2 then
            Some (fst (loop_head R C (s\<lparr>board := set_revealed (r1 * C + c1) False (board s)\<rparr>)),
                  MsgSameCardTwice #
                  snd (loop_head R C (s\<lparr>board := set_revealed (r1 * C + c1) False (board s)\<rparr>)))
          else if symbol (set_revealed (r2 * C + c2) True (board s) ! (r1 * C + c1))
                  = symbol (set_revealed (r2 * C + c2) True (board s) ! (r2 * C + c2)) then
            Some (fst (loop_head R C
                    (s\<lparr>board := set_matched (r2 * C + c2) True
                                  (set_matched (r1 * C + c1) True
                                     (set_revealed (r2 * C + c2) True (board s))),
                       pairs_found := pairs_found s + 1, moves := moves s + 1\<rparr>)),
                  MsgBoard (display_board R C (set_revealed (r2 * C + c2) True (board s)))
                  # MsgMatch
                  # snd (loop_head R C
                    (s\<lparr>board := set_matched (r2 * C + c2) True
                                  (set_matched (r1 * C + c1) True
                                     (set_revealed (r2 * C + c2) True (board s))),
                       pairs_found := pairs_found s + 1, moves := moves s + 1\<rparr>)))
          else
            Some (s\<lparr>board := set_revealed (r2 * C + c2) True (board s),
                     moves := moves s + 1, phase := AwaitingAck r1 c1 r2 c2\<rparr>,
                  [MsgBoard (display_board R C (set_revealed (r2 * C + c2) True (board s))),
                   MsgNoMatch, MsgPressEnter]))"
  by (simp add: step_def Let_def split_beta split: sum.splits)

lemma step_ack:
  "phase s = AwaitingAck r1 c1 r2 c2 \<Longrightarrow>
   step R C s Ack =
     Some (loop_head R C
             (s\<lparr>board := set_revealed (r2 * C + c2) False
                           (set_revealed (r1 * C + c1) False (board s))\<rparr>))"
  by (simp add: step_def Let_def split_beta)

lemma step_clock:
  "phase s = Won \<Longrightarrow>
   step R C s (Clock t) =
     (case final_report s t of
        None \<Rightarrow> None
      | Some out \<Rightarrow> Some (s\<lparr>phase := Exited 0\<rparr>, out))"
  by (simp add: step_def)

lemma step_None:
  "phase s = AwaitingFirstPick \<Longrightarrow> e \<noteq> Pick (case e of Pick sc \<Rightarrow> sc | _ \<Rightarrow> ScanFailed)
     \<Longrightarrow> step R C s e = None"
  "phase s = Won \<Longrightarrow> step R C s (Pick sc) = None"
  "phase s = Won \<Longrightarrow> step R C s Ack = None"
  "phase s = AwaitingAck r1 c1 r2 c2 \<Longrightarrow> step R C s (Pick sc) = None"
  "phase s = Exited k \<Longrightarrow> step R C s e = None"
  by (simp_all add: step_def split: event.splits)

subsection \<open>The invariant is kept\<close>

lemma open_cellsD:
  "i \<in> open_cells b \<Longrightarrow> i < length b \<and> revealed (b ! i) \<and> \<not> matched (b ! i)"
  by (simp add: open_cells_def)

lemma matched_shown_reveal:
  "matched_shown b \<Longrightarrow> matched_shown (set_revealed i True b)"
  by (auto simp: matched_shown_def nth_set_revealed)

lemma matched_shown_hide:
  "matched_shown b \<Longrightarrow> i < length b \<Longrightarrow> \<not> matched (b ! i) \<Longrightarrow>
   matched_shown (set_revealed i False b)"
  by (auto simp: matched_shown_def nth_set_revealed)

lemma matched_shown_match:
  "matched_shown b \<Longrightarrow> i < length b \<Longrightarrow> revealed (b ! i) \<Longrightarrow>
   matched_shown (set_matched i True b)"
  by (auto simp: matched_shown_def nth_set_matched)

lemma inv_loop_head:
  assumes "length (board s) = R * C" "matched_shown (board s)" "open_cells (board s) = {}"
    "pairs_found s \<le> total_pairs R C"
  shows "game_inv R C (fst (loop_head R C s))"
  using assms by (simp add: game_inv_def loop_head_def)

lemma board_loop_head [simp]: "board (fst (loop_head R C s)) = board s"
  by (simp add: loop_head_def)

lemma moves_loop_head [simp]: "moves (fst (loop_head R C s)) = moves s"
  by (simp add: loop_head_def)

lemma pairs_found_loop_head [simp]: "pairs_found (fst (loop_head R C s)) = pairs_found s"
  by (simp add: loop_head_def)

lemma start_loop_head [simp]: "start (fst (loop_head R C s)) = start s"
  by (simp add: loop_head_def)

lemma phase_loop_head:
  "phase (fst (loop_head R C s)) =
     (if pairs_found s < total_pairs R C then AwaitingFirstPick else Won)"
  by (simp add: loop_head_def)

lemma inv_first:
  assumes i: "game_inv R C s" and ph: "phase s = AwaitingFirstPick"
    and st: "step R C s (Pick sc) = Some (s', out)"
  shows "game_inv R C s'"
proof (cases "pick_card R C (board s) sc")
  case (Inl msg)
  then have "s' = fst (loop_head R C s)"
    using st ph by (simp add: step_first)
  moreover have "game_inv R C (fst (loop_head R C s))"
    using i ph by (intro inv_loop_head) (simp_all add: game_inv_def)
  ultimately show ?thesis by simp
next
  case (Inr rc)
  obtain r1 c1 where rc: "rc = (r1, c1)" by (cases rc)
  from pick_card_Inr [OF Inr [unfolded rc]]
  have r: "r1 < R" "c1 < C" and m: "\<not> matched (board s ! (r1 * C + c1))" by simp_all
  have len: "length (board s) = R * C" using i by (simp add: game_inv_def)
  have lt: "r1 * C + c1 < length (board s)" using r len by (simp add: cell_lt)
  have s': "s' = s\<lparr>board := set_revealed (r1 * C + c1) True (board s),
                    phase := AwaitingSecondPick r1 c1\<rparr>"
    using st ph Inr rc by (simp add: step_first)
  have "open_cells (set_revealed (r1 * C + c1) True (board s)) = {r1 * C + c1}"
    using i ph lt m by (simp add: open_cells_set_revealed game_inv_def)
  moreover have "matched_shown (set_revealed (r1 * C + c1) True (board s))"
    using i by (intro matched_shown_reveal) (simp add: game_inv_def)
  ultimately show ?thesis
    using i ph r len by (simp add: s' game_inv_def)
qed

lemma second_pick_distinct:
  assumes i: "game_inv R C s" and ph: "phase s = AwaitingSecondPick r1 c1"
    and pk: "pick_card R C (board s) sc = Inr (r2, c2)"
  shows "r1 * C + c1 \<noteq> r2 * C + c2" "\<not> (r1 = r2 \<and> c1 = c2)"
proof -
  have "r1 * C + c1 \<in> open_cells (board s)"
    using i ph by (simp add: game_inv_def)
  then have "revealed (board s ! (r1 * C + c1))" by (simp add: open_cells_def)
  moreover have "\<not> revealed (board s ! (r2 * C + c2))"
    using pick_card_Inr [OF pk] by simp
  ultimately show "r1 * C + c1 \<noteq> r2 * C + c2" by metis
  then show "\<not> (r1 = r2 \<and> c1 = c2)" by metis
qed

lemma inv_second:
  assumes i: "game_inv R C s" and ph: "phase s = AwaitingSecondPick r1 c1"
    and st: "step R C s (Pick sc) = Some (s', out)"
  shows "game_inv R C s'"
proof -
  have len: "length (board s) = R * C" and ms: "matched_shown (board s)"
    and r1: "r1 < R" "c1 < C" and op: "open_cells (board s) = {r1 * C + c1}"
    and pf: "pairs_found s < total_pairs R C"
    using i ph by (simp_all add: game_inv_def)
  have lt1: "r1 * C + c1 < length (board s)" using r1 len by (simp add: cell_lt)
  have c1: "revealed (board s ! (r1 * C + c1))" "\<not> matched (board s ! (r1 * C + c1))"
    using op by (auto simp: open_cells_def)
  let ?hid = "s\<lparr>board := set_revealed (r1 * C + c1) False (board s)\<rparr>"
  have hid: "game_inv R C (fst (loop_head R C ?hid))"
    using len ms lt1 c1 op pf
    by (intro inv_loop_head) (simp_all add: matched_shown_hide open_cells_set_revealed)
  show ?thesis
  proof (cases "pick_card R C (board s) sc")
    case (Inl msg)
    then have "s' = fst (loop_head R C ?hid)"
      using st ph by (simp add: step_second)
    with hid show ?thesis by simp
  next
    case (Inr rc)
    obtain r2 c2 where rc: "rc = (r2, c2)" by (cases rc)
    note pk = Inr [unfolded rc]
    from pick_card_Inr [OF pk]
    have r2: "r2 < R" "c2 < C" and m2: "\<not> matched (board s ! (r2 * C + c2))" by simp_all
    have lt2: "r2 * C + c2 < length (board s)" using r2 len by (simp add: cell_lt)
    note ne = second_pick_distinct [OF i ph pk]
    let ?b = "set_revealed (r2 * C + c2) True (board s)"
    have opb: "open_cells ?b = {r1 * C + c1, r2 * C + c2}"
      using lt2 m2 op by (auto simp: open_cells_set_revealed)
    have msb: "matched_shown ?b" using ms by (rule matched_shown_reveal)
    show ?thesis
    proof (cases "symbol (?b ! (r1 * C + c1)) = symbol (?b ! (r2 * C + c2))")
      case True
      let ?m = "s\<lparr>board := set_matched (r2 * C + c2) True
                               (set_matched (r1 * C + c1) True ?b),
                    pairs_found := pairs_found s + 1, moves := moves s + 1\<rparr>"
      have "s' = fst (loop_head R C ?m)"
        using st ph pk ne(2) True by (simp add: step_second)
      moreover have "game_inv R C (fst (loop_head R C ?m))"
      proof (intro inv_loop_head)
        show "length (board ?m) = R * C" using len by simp
        have "revealed (?b ! (r1 * C + c1))" "revealed (?b ! (r2 * C + c2))"
          using lt1 lt2 c1 by (simp_all add: nth_set_revealed)
        then show "matched_shown (board ?m)"
          using msb lt1 lt2 ne(1)
          by (simp add: matched_shown_match nth_set_matched)
        show "open_cells (board ?m) = {}"
          using opb lt1 lt2 by (simp add: open_cells_set_matched)
        show "pairs_found ?m \<le> total_pairs R C" using pf by simp
      qed
      ultimately show ?thesis by simp
    next
      case False
      then have "s' = s\<lparr>board := ?b, moves := moves s + 1, phase := AwaitingAck r1 c1 r2 c2\<rparr>"
        using st ph pk ne(2) by (simp add: step_second)
      then show ?thesis
        using len msb opb r1 r2 ne(1) pf by (simp add: game_inv_def)
    qed
  qed
qed

lemma inv_ack:
  assumes i: "game_inv R C s" and ph: "phase s = AwaitingAck r1 c1 r2 c2"
    and st: "step R C s Ack = Some (s', out)"
  shows "game_inv R C s'"
proof -
  have len: "length (board s) = R * C" and ms: "matched_shown (board s)"
    and r: "r1 < R" "c1 < C" "r2 < R" "c2 < C"
    and op: "open_cells (board s) = {r1 * C + c1, r2 * C + c2}"
    and pf: "pairs_found s < total_pairs R C"
    using i ph by (simp_all add: game_inv_def)
  have lt: "r1 * C + c1 < length (board s)" "r2 * C + c2 < length (board s)"
    using r len by (simp_all add: cell_lt)
  have um: "\<not> matched (board s ! (r1 * C + c1))" "\<not> matched (board s ! (r2 * C + c2))"
    using op by (auto simp: open_cells_def)
  let ?b1 = "set_revealed (r1 * C + c1) False (board s)"
  let ?h = "s\<lparr>board := set_revealed (r2 * C + c2) False ?b1\<rparr>"
  have s': "s' = fst (loop_head R C ?h)"
    using st ph by (simp add: step_ack)
  have ms1: "matched_shown ?b1" using ms lt(1) um(1) by (rule matched_shown_hide)
  have um2: "\<not> matched (?b1 ! (r2 * C + c2))"
    using lt um by (simp add: nth_set_revealed)
  have "game_inv R C (fst (loop_head R C ?h))"
  proof (intro inv_loop_head)
    show "length (board ?h) = R * C" using len by simp
    show "matched_shown (board ?h)"
      using ms1 lt(2) um2 by (simp add: matched_shown_hide)
    show "open_cells (board ?h) = {}"
      using op lt by (auto simp: open_cells_set_revealed)
    show "pairs_found ?h \<le> total_pairs R C" using pf by simp
  qed
  with s' show ?thesis by simp
qed

lemma step_inv:
  assumes i: "game_inv R C s" and st: "step R C s e = Some (s', out)"
  shows "game_inv R C s'"
proof (cases "phase s")
  case AwaitingFirstPick
  with st obtain sc where "e = Pick sc"
    by (cases e) (simp_all add: step_def)
  with i st AwaitingFirstPick show ?thesis by (auto intro: inv_first)
next
  case (AwaitingSecondPick r1 c1)
  with st obtain sc where "e = Pick sc"
    by (cases e) (simp_all add: step_def)
  with i st AwaitingSecondPick show ?thesis by (auto intro: inv_second)
next
  case (AwaitingAck r1 c1 r2 c2)
  with st have "e = Ack"
    by (cases e) (simp_all add: step_def)
  with i st AwaitingAck show ?thesis by (auto intro: inv_ack)
next
  case Won
  with st obtain t where "e = Clock t"
    by (cases e) (simp_all add: step_def)
  with st Won have "s' = s\<lparr>phase := Exited 0\<rparr>"
    by (auto simp: step_clock split: option.splits)
  with i Won show ?thesis by (simp add: game_inv_def)
next
  case (Exited k)
  with st show ?thesis by (simp add: step_def)
qed

lemma run_inv:
  "game_inv R C s \<Longrightarrow> run R C s evs = Some (s', out) \<Longrightarrow> game_inv R C s'"
proof (induction evs arbitrary: s out)
  case Nil
  then show ?case by simp
next
  case (Cons e evs)
  from Cons.prems(2) obtain s1 o1 o2 where
    1: "step R C s e = Some (s1, o1)" and 2: "run R C s1 evs = Some (s', o2)"
    by (auto split: option.splits)
  from step_inv [OF Cons.prems(1) 1] 2 show ?case by (rule Cons.IH)
qed

lemma main_start_inv:
  assumes "main_start R C junk g t0 = Inr (s0, out0)"
  shows "game_inv R C s0"
proof -
  have ev: "even (R * C)" using assms by (auto simp: main_start_def split: if_splits)
  obtain b g' where ib: "init_board R C junk g = Inr (b, g')"
    using assms by (auto simp: main_start_def split: if_splits sum.splits)
  have pc: "(R * C) div 2 \<le> length symbol_pool"
    using ib by (auto simp: init_board_def Let_def split: if_splits)
  from init_board_symbols [OF ev pc, of junk g] ib
  have beq: "b = map (\<lambda>k. \<lparr>symbol = map symbol b ! k, revealed = False, matched = False\<rparr>) [0..<R * C]"
    and len: "length b = R * C" by auto
  have flags: "\<not> revealed (b ! i) \<and> \<not> matched (b ! i)" if "i < R * C" for i
    using that by (subst beq, simp)+
  let ?s = "\<lparr>board = b, pairs_found = 0, moves = 0, start = t0, phase = AwaitingFirstPick\<rparr>"
  have s0: "s0 = fst (loop_head R C ?s)"
    using assms ib ev by (simp add: main_start_def split_beta)
  have "game_inv R C (fst (loop_head R C ?s))"
  proof (intro inv_loop_head)
    show "length (board ?s) = R * C" using len by simp
    show "matched_shown (board ?s)" using flags len by (simp add: matched_shown_def)
    show "open_cells (board ?s) = {}" using flags len by (auto simp: open_cells_def)
    show "pairs_found ?s \<le> total_pairs R C" by (simp add: total_pairs_def)
  qed
  with s0 show ?thesis by simp
qed

subsection \<open>Symbols, messages and reachable states\<close>

lemma count_filter_map:
  "length (filter (\<lambda>x. f x = y) xs) = count (mset (map f xs)) y"
  by (induction xs) simp_all

lemma step_symbols:
  "step R C s e = Some (s', out) \<Longrightarrow> map symbol (board s') = map symbol (board s)"
  by (cases "phase s"; cases e)
     (auto simp: step_def Let_def split_beta loop_head_def
           split: sum.splits if_splits option.splits)





lemma run_symbols:
  "run R C s evs = Some (s', out) \<Longrightarrow> map symbol (board s') = map symbol (board s)"
proof (induction evs arbitrary: s out)
  case Nil
  then show ?case by simp
next
  case (Cons e evs)
  from Cons.prems obtain s1 o1 o2 where
    1: "step R C s e = Some (s1, o1)" and 2: "run R C s1 evs = Some (s', o2)"
    by (auto split: option.splits)
  from Cons.IH [OF 2] step_symbols [OF 1] show ?case by simp
qed

lemma reachable_inv:
  "main_start R C junk g t0 = Inr (s0, out0) \<Longrightarrow> run R C s0 evs = Some (s, out)
   \<Longrightarrow> game_inv R C s"
  by (rule run_inv [OF main_start_inv])

lemma pick_card_Inl:
  "pick_card R C b sc = Inl msg \<Longrightarrow>
   msg = MsgInvalidInput \<or> msg = MsgOutOfRange \<or> msg = MsgAlreadyMatched
   \<or> msg = MsgAlreadyRevealed"
  by (auto simp: pick_card_def Let_def split: scan.splits if_splits)

lemma loop_head_out:
  "snd (loop_head R C s) =
     (if pairs_found s < total_pairs R C
      then [MsgBoard (display_board R C (board s)), MsgPickFirst, MsgEnterRowCol] else [])"
  by (simp add: loop_head_def)

lemma step_no_same_card:
  assumes i: "game_inv R C s" and st: "step R C s e = Some (s', out)"
  shows "MsgSameCardTwice \<notin> set out"
proof (cases "phase s")
  case AwaitingFirstPick
  with st obtain sc where e: "e = Pick sc"
    by (cases e) (simp_all add: step_def)
  show ?thesis
    using st AwaitingFirstPick pick_card_Inl [of R C "board s" sc]
    by (auto simp: e step_first loop_head_out split: sum.splits if_splits)
next
  case (AwaitingSecondPick r1 c1)
  with st obtain sc where e: "e = Pick sc"
    by (cases e) (simp_all add: step_def)
  show ?thesis
  proof (cases "pick_card R C (board s) sc")
    case (Inl msg)
    with st AwaitingSecondPick pick_card_Inl [OF Inl] show ?thesis
      by (auto simp: e step_second loop_head_out split: if_splits)
  next
    case (Inr rc)
    obtain r2 c2 where rc: "rc = (r2, c2)" by (cases rc)
    note pk = Inr [unfolded rc]
    from second_pick_distinct(2) [OF i AwaitingSecondPick pk] st AwaitingSecondPick pk
    show ?thesis
      by (auto simp: e step_second loop_head_out split: if_splits)
  qed
next
  case (AwaitingAck r1 c1 r2 c2)
  with st have e: "e = Ack"
    by (cases e) (simp_all add: step_def)
  with st AwaitingAck show ?thesis
    by (auto simp: step_ack loop_head_def split: if_splits)
next
  case Won
  with st obtain t where "e = Clock t"
    by (cases e) (simp_all add: step_def)
  with st Won show ?thesis
    by (auto simp: step_clock final_report_def split: option.splits)
next
  case (Exited k)
  with st show ?thesis by (simp add: step_def)
qed

lemma run_no_same_card:
  "game_inv R C s \<Longrightarrow> run R C s evs = Some (s', out) \<Longrightarrow> MsgSameCardTwice \<notin> set out"
proof (induction evs arbitrary: s out)
  case Nil
  then show ?case by simp
next
  case (Cons e evs)
  from Cons.prems(2) obtain s1 o1 o2 where
    1: "step R C s e = Some (s1, o1)" and 2: "run R C s1 evs = Some (s', o2)"
    and o: "out = o1 @ o2"
    by (auto split: option.splits)
  from step_no_same_card [OF Cons.prems(1) 1] Cons.IH [OF step_inv [OF Cons.prems(1) 1] 2] o
  show ?case by simp
qed

lemma main_start_out:
  "main_start R C junk g t0 = Inr (s0, out0) \<Longrightarrow> MsgSameCardTwice \<notin> set out0"
  by (auto simp: main_start_def loop_head_def split_beta split: if_splits sum.splits)

subsection \<open>The start of a game on the 4 by 4 board\<close>

text \<open>With \<^verbatim>\<open>rand()\<close> returning 0 at every call, the board reads \<open>ABBC CDDE EFFG GHHA\<close>.\<close>

lemma main_start_example:
  "main_start BOARD_ROWS BOARD_COLS (\<lambda>_. CHR ''?'') (\<lambda>_. 0) t0 =
     Inr (\<lparr>board = map (\<lambda>ch. \<lparr>symbol = ch, revealed = False, matched = False\<rparr>) ''ABBCCDDEEFFGGHHA'',
        pairs_found = 0, moves = 0, start = t0, phase = AwaitingFirstPick\<rparr>,
          [MsgWelcome 8, MsgBoard [''****'', ''****'', ''****'', ''****''], MsgPickFirst, MsgEnterRowCol])"
  by code_simp

section \<open>The claims\<close>

subsection \<open>C1: at most two open cells\<close>

text \<open>
Claim C1. In every state the program reaches from its start by any sequence of inputs,
  the number of cells with \<open>revealed\<close> set and \<open>matched\<close> clear is at most 2. It is 0 while the
  program waits for a first pick and once the loop has ended, 1 while it waits for the
  second pick, and 2 while it waits for Enter after a mismatch.
\<close>

theorem open_cells_at_most_two:
  assumes "main_start R C junk g t0 = Inr (s0, out0)" "run R C s0 evs = Some (s, out)"
  shows "open_count (board s) \<le> 2
         \<and> open_count (board s) =
             (case phase s of
                AwaitingFirstPick \<Rightarrow> 0
              | AwaitingSecondPick r1 c1 \<Rightarrow> 1
              | AwaitingAck r1 c1 r2 c2 \<Rightarrow> 2
              | Won \<Rightarrow> 0
              | Exited k \<Rightarrow> 0)"
proof -
  have "game_inv R C s"
    using main_start_inv [OF assms(1)] assms(2) by (rule run_inv)
  then have "open_count (board s) =
             (case phase s of
                AwaitingFirstPick \<Rightarrow> 0
              | AwaitingSecondPick r1 c1 \<Rightarrow> 1
              | AwaitingAck r1 c1 r2 c2 \<Rightarrow> 2
              | Won \<Rightarrow> 0
              | Exited k \<Rightarrow> 0)"
    by (cases "phase s") (simp_all add: game_inv_def open_count_card)
  then show ?thesis by (cases "phase s") simp_all
qed

text \<open>
On the 4 by 4 board, after the picks (1,1) and (1,2), which do not match, two cells are open.
\<close>

theorem open_cells_at_most_two_witness:
  "\<exists>s0 out0 s out.
     main_start BOARD_ROWS BOARD_COLS (\<lambda>_. CHR ''?'') (\<lambda>_. 0) 0 = Inr (s0, out0)
     \<and> run BOARD_ROWS BOARD_COLS s0 [Pick (Scanned 1 1), Pick (Scanned 1 2)] = Some (s, out)
     \<and> phase s = AwaitingAck 0 0 0 1
     \<and> open_count (board s) \<le> 2
     \<and> open_count (board s) = 2"
proof -
  let ?init = "\<lparr>board = map (\<lambda>ch. \<lparr>symbol = ch, revealed = False, matched = False\<rparr>) ''ABBCCDDEEFFGGHHA'',
        pairs_found = 0, moves = 0, start = 0, phase = AwaitingFirstPick\<rparr>"
  let ?iout = "[MsgWelcome 8, MsgBoard [''****'', ''****'', ''****'', ''****''], MsgPickFirst, MsgEnterRowCol]"
  let ?st = "fst (the (run BOARD_ROWS BOARD_COLS ?init [Pick (Scanned 1 1), Pick (Scanned 1 2)]))"
  let ?sout = "snd (the (run BOARD_ROWS BOARD_COLS ?init [Pick (Scanned 1 1), Pick (Scanned 1 2)]))"
  have a: "main_start BOARD_ROWS BOARD_COLS (\<lambda>_. CHR ''?'') (\<lambda>_. 0) 0 = Inr (?init, ?iout)"
    by (rule main_start_example)
  have b: "run BOARD_ROWS BOARD_COLS ?init [Pick (Scanned 1 1), Pick (Scanned 1 2)] = Some (?st, ?sout)"
    by code_simp
  have c: "phase ?st = AwaitingAck 0 0 0 1"
    by code_simp
  from open_cells_at_most_two [OF a b] c
  have d: "open_count (board ?st) \<le> 2" and e: "open_count (board ?st) = 2"
    by simp_all
  show ?thesis
    apply (rule exI [of _ ?init], rule exI [of _ ?iout])
    apply (rule exI [of _ ?st], rule exI [of _ ?sout])
    using a b c d e by (intro conjI)
qed

subsection \<open>C2: picking the first card again\<close>

text \<open>
Claim C2 says that a second pick at the coordinate of the first is reported as ``same card
  twice''. The branch of \<^verbatim>\<open>main\<close> that prints this message is never taken: \<^verbatim>\<open>main\<close> sets the
  first card's \<open>revealed\<close> before it calls \<^verbatim>\<open>pick_card\<close> again, and \<^verbatim>\<open>pick_card\<close> rejects a
  revealed card. What the code does, in every state reached from the start: no output so far
  contains \<open>MsgSameCardTwice\<close>; and when the program waits for the second pick after a
  first pick at \<open>(r1, c1)\<close>, the input naming that cell again is answered by
  \<open>MsgAlreadyRevealed\<close>, followed by the board and the prompt for a first pick. The first
  cell's \<open>revealed\<close> is cleared, \<open>moves\<close> is unchanged, and the program waits for a first pick.
\<close>

theorem duplicate_pick_reported_as_revealed:
  assumes "main_start R C junk g t0 = Inr (s0, out0)" "run R C s0 evs = Some (s, out)"
  shows "MsgSameCardTwice \<notin> set (out0 @ out)
         \<and> (\<forall>r1 c1. phase s = AwaitingSecondPick r1 c1 \<longrightarrow>
              (\<exists>s'. step R C s (Pick (Scanned (int r1 + 1) (int c1 + 1)))
                       = Some (s', [MsgAlreadyRevealed, MsgBoard (display_board R C (board s')),
                                    MsgPickFirst, MsgEnterRowCol])
                   \<and> board s' = set_revealed (r1 * C + c1) False (board s)
                   \<and> \<not> revealed (board s' ! (r1 * C + c1))
                   \<and> moves s' = moves s
                   \<and> phase s' = AwaitingFirstPick))"
proof -
  note i = reachable_inv [OF assms]
  have none: "MsgSameCardTwice \<notin> set (out0 @ out)"
    using main_start_out [OF assms(1)] run_no_same_card [OF main_start_inv [OF assms(1)] assms(2)]
    by simp
  have dup: "\<exists>s'. step R C s (Pick (Scanned (int r1 + 1) (int c1 + 1)))
                       = Some (s', [MsgAlreadyRevealed, MsgBoard (display_board R C (board s')),
                                    MsgPickFirst, MsgEnterRowCol])
                   \<and> board s' = set_revealed (r1 * C + c1) False (board s)
                   \<and> \<not> revealed (board s' ! (r1 * C + c1))
                   \<and> moves s' = moves s
                   \<and> phase s' = AwaitingFirstPick"
    if ph: "phase s = AwaitingSecondPick r1 c1" for r1 c1
  proof -
    have len: "length (board s) = R * C" and r: "r1 < R" "c1 < C"
      and op: "open_cells (board s) = {r1 * C + c1}"
      and pf: "pairs_found s < total_pairs R C"
      using i ph by (simp_all add: game_inv_def)
    have lt: "r1 * C + c1 < length (board s)" using r len by (simp add: cell_lt)
    have c: "revealed (board s ! (r1 * C + c1))" "\<not> matched (board s ! (r1 * C + c1))"
      using op by (auto simp: open_cells_def)
    have pk: "pick_card R C (board s) (Scanned (int r1 + 1) (int c1 + 1)) = Inl MsgAlreadyRevealed"
      using r c by (simp add: pick_card_def Let_def)
    let ?h = "s\<lparr>board := set_revealed (r1 * C + c1) False (board s)\<rparr>"
    have "step R C s (Pick (Scanned (int r1 + 1) (int c1 + 1)))
            = Some (fst (loop_head R C ?h), MsgAlreadyRevealed # snd (loop_head R C ?h))"
      using ph pk by (simp add: step_second)
    moreover have "snd (loop_head R C ?h)
        = [MsgBoard (display_board R C (board (fst (loop_head R C ?h)))), MsgPickFirst, MsgEnterRowCol]"
      using pf by (simp add: loop_head_def)
    moreover have "phase (fst (loop_head R C ?h)) = AwaitingFirstPick"
      using pf by (simp add: loop_head_def)
    moreover have "\<not> revealed (board (fst (loop_head R C ?h)) ! (r1 * C + c1))"
      using lt by (simp add: nth_set_revealed)
    ultimately show ?thesis by simp
  qed
  from none dup show ?thesis by blast
qed

text \<open>
On the 4 by 4 board: the pick (1,1), then (1,1) again.
\<close>

theorem duplicate_pick_reported_as_revealed_witness:
  "\<exists>s0 out0 s out s'.
     main_start BOARD_ROWS BOARD_COLS (\<lambda>_. CHR ''?'') (\<lambda>_. 0) 0 = Inr (s0, out0)
     \<and> run BOARD_ROWS BOARD_COLS s0 [Pick (Scanned 1 1)] = Some (s, out)
     \<and> phase s = AwaitingSecondPick 0 0
     \<and> step BOARD_ROWS BOARD_COLS s (Pick (Scanned 1 1)) =
           Some (s', [MsgAlreadyRevealed, MsgBoard [''****'', ''****'', ''****'', ''****''], MsgPickFirst, MsgEnterRowCol])
     \<and> MsgSameCardTwice \<notin> set (out0 @ out)
     \<and> moves s' = moves s"
proof -
  let ?init = "\<lparr>board = map (\<lambda>ch. \<lparr>symbol = ch, revealed = False, matched = False\<rparr>) ''ABBCCDDEEFFGGHHA'',
        pairs_found = 0, moves = 0, start = 0, phase = AwaitingFirstPick\<rparr>"
  let ?iout = "[MsgWelcome 8, MsgBoard [''****'', ''****'', ''****'', ''****''], MsgPickFirst, MsgEnterRowCol]"
  let ?st = "fst (the (run BOARD_ROWS BOARD_COLS ?init [Pick (Scanned 1 1)]))"
  let ?sout = "snd (the (run BOARD_ROWS BOARD_COLS ?init [Pick (Scanned 1 1)]))"
  have a: "main_start BOARD_ROWS BOARD_COLS (\<lambda>_. CHR ''?'') (\<lambda>_. 0) 0 = Inr (?init, ?iout)"
    by (rule main_start_example)
  have b: "run BOARD_ROWS BOARD_COLS ?init [Pick (Scanned 1 1)] = Some (?st, ?sout)"
    by code_simp
  let ?nx = "fst (the (step BOARD_ROWS BOARD_COLS ?st (Pick (Scanned 1 1))))"
  let ?nout = "snd (the (step BOARD_ROWS BOARD_COLS ?st (Pick (Scanned 1 1))))"
  have c: "phase ?st = AwaitingSecondPick 0 0"
    by code_simp
  have d: "step BOARD_ROWS BOARD_COLS ?st (Pick (Scanned 1 1)) =
           Some (?nx, [MsgAlreadyRevealed, MsgBoard [''****'', ''****'', ''****'', ''****''], MsgPickFirst, MsgEnterRowCol])"
    by code_simp
  have e: "moves ?nx = moves ?st"
    by code_simp
  note n = duplicate_pick_reported_as_revealed [OF a b, THEN conjunct1]
  show ?thesis
    apply (rule exI [of _ ?init], rule exI [of _ ?iout])
    apply (rule exI [of _ ?st], rule exI [of _ ?sout])
    apply (rule exI [of _ ?nx])
    using a b c d n e by (intro conjI)
qed

subsection \<open>C3: the initial board holds each symbol twice\<close>

text \<open>
Claim C3. When \<open>R * C\<close> is even and \<open>R * C div 2\<close> does not exceed the length of the
  symbol pool, \<^verbatim>\<open>init_board\<close> returns a board of \<open>R * C\<close> cells, whatever the stack held and
  whatever \<^verbatim>\<open>rand()\<close> returns. The symbols on it are the first \<open>R * C div 2\<close> symbols of the
  pool, so there are exactly \<open>R * C div 2\<close> distinct ones; each symbol in use is on exactly 2
  cells; and every cell has \<open>revealed\<close> and \<open>matched\<close> clear. (\<open>R\<close> and \<open>C\<close> positive is not
  needed: with no cells the statement holds of the empty board.)
\<close>

theorem init_board_pairs:
  assumes "even (R * C)" "(R * C) div 2 \<le> length symbol_pool"
  shows "\<exists>b g'. init_board R C junk g = Inr (b, g')
           \<and> length b = R * C
           \<and> symbol ` set b = set (take ((R * C) div 2) symbol_pool)
           \<and> card (symbol ` set b) = (R * C) div 2
           \<and> (\<forall>ch \<in> symbol ` set b. length (filter (\<lambda>x. symbol x = ch) b) = 2)
           \<and> (\<forall>x \<in> set b. \<not> revealed x \<and> \<not> matched x)"
proof -
  define used where "used = take ((R * C) div 2) symbol_pool"
  from init_board_symbols [OF assms, of junk g] obtain b g' where
    ib: "init_board R C junk g = Inr (b, g')" and
    beq: "b = map (\<lambda>k. \<lparr>symbol = map symbol b ! k, revealed = False, matched = False\<rparr>) [0..<R * C]" and
    len: "length b = R * C" and
    ms: "mset (map symbol b) = mset used + mset used"
    unfolding used_def by blast
  have d: "distinct used"
    unfolding used_def using distinct_symbol_pool by (rule distinct_take)
  have "set (map symbol b) = set_mset (mset (map symbol b))" by simp
  also have "\<dots> = set used" by (simp only: ms) simp
  finally have st: "symbol ` set b = set used" by simp
  have "card (set used) = length used" using d by (rule distinct_card)
  also have "\<dots> = (R * C) div 2" using assms(2) by (simp add: used_def)
  finally have cd: "card (symbol ` set b) = (R * C) div 2" by (simp only: st)
  have cnt: "\<forall>ch \<in> symbol ` set b. length (filter (\<lambda>x. symbol x = ch) b) = 2"
  proof
    fix ch assume "ch \<in> symbol ` set b"
    then have "ch \<in> set used" by (simp only: st)
    with d have "count (mset used) ch = 1" by (simp add: distinct_count_atmost_1)
    then have "count (mset (map symbol b)) ch = 2" by (simp only: ms) simp
    then show "length (filter (\<lambda>x. symbol x = ch) b) = 2" by (simp only: count_filter_map)
  qed
  have fl: "\<forall>x \<in> set b. \<not> revealed x \<and> \<not> matched x"
  proof
    fix x assume "x \<in> set b"
    then have "x \<in> set (map (\<lambda>k. \<lparr>symbol = map symbol b ! k, revealed = False, matched = False\<rparr>) [0..<R * C])"
      using beq by simp
    then show "\<not> revealed x \<and> \<not> matched x" by auto
  qed
  from ib len st cd cnt fl show ?thesis unfolding used_def by blast
qed

theorem init_board_pairs_witness:
  "even (BOARD_ROWS * BOARD_COLS)
   \<and> (BOARD_ROWS * BOARD_COLS) div 2 \<le> length symbol_pool
   \<and> map symbol (fst (projr (init_board BOARD_ROWS BOARD_COLS (\<lambda>_. CHR ''?'') (\<lambda>_. 0)))) = ''ABBCCDDEEFFGGHHA''
   \<and> (\<exists>b g'. init_board BOARD_ROWS BOARD_COLS (\<lambda>_. CHR ''?'') (\<lambda>_. 0) = Inr (b, g')
           \<and> length b = BOARD_ROWS * BOARD_COLS
           \<and> symbol ` set b = set (take ((BOARD_ROWS * BOARD_COLS) div 2) symbol_pool)
           \<and> card (symbol ` set b) = (BOARD_ROWS * BOARD_COLS) div 2
           \<and> (\<forall>ch \<in> symbol ` set b. length (filter (\<lambda>x. symbol x = ch) b) = 2)
           \<and> (\<forall>x \<in> set b. \<not> revealed x \<and> \<not> matched x))"
proof -
  have h1: "even (BOARD_ROWS * BOARD_COLS)"
    by (simp add: BOARD_ROWS_def BOARD_COLS_def)
  have h2: "(BOARD_ROWS * BOARD_COLS) div 2 \<le> length symbol_pool"
    by (simp add: BOARD_ROWS_def BOARD_COLS_def length_symbol_pool)
  have v: "map symbol (fst (projr (init_board BOARD_ROWS BOARD_COLS (\<lambda>_. CHR ''?'') (\<lambda>_. 0)))) = ''ABBCCDDEEFFGGHHA''"
    by code_simp
  from h1 h2 v init_board_pairs [OF h1 h2, of "\<lambda>_. CHR ''?''" "\<lambda>_. 0"] show ?thesis
    by (intro conjI)
qed

subsection \<open>C4: the shuffle permutes its sequence\<close>

text \<open>
Claim C4. For every sequence \<open>xs\<close>, every \<open>cnt\<close> within its length and every state \<open>g\<close>
  of the random source, \<^verbatim>\<open>shuffle_symbols\<close> returns a sequence with the same multiset of
  elements (and the same length). The result is \<open>xs\<close> after the swaps of \<open>shuffle_swaps\<close>,
  applied in order; their first indices are \<open>cnt - 1\<close> down to \<open>1\<close>, one swap each, and
  each swap exchanges index \<open>i\<close> with an index \<open>j \<le> i\<close>.
\<close>

theorem shuffle_symbols_permutes:
  assumes "nat cnt \<le> length xs"
  shows "\<exists>ys g'. shuffle_symbols xs cnt g = Some (ys, g')
           \<and> mset ys = mset xs
           \<and> length ys = length xs
           \<and> ys = foldl (\<lambda>zs (i, j). swap i j zs) xs (shuffle_swaps (nat (cnt - 1)) g)
           \<and> map fst (shuffle_swaps (nat (cnt - 1)) g) = rev [1..<nat cnt]
           \<and> (\<forall>(i, j) \<in> set (shuffle_swaps (nat (cnt - 1)) g). j \<le> i \<and> i < length xs)"
proof -
  let ?n = "nat (cnt - 1)"
  have some: "shuffle_symbols xs cnt g = Some (shuffle_loop ?n g xs)"
    using assms by (simp add: shuffle_symbols_def)
  have m: "mset (fst (shuffle_loop ?n g xs)) = mset xs"
  proof (cases "?n = 0")
    case True
    then show ?thesis by simp
  next
    case False
    then have "?n < length xs" using assms by linarith
    then show ?thesis by (rule shuffle_loop_mset)
  qed
  have idx: "Suc ?n = nat cnt \<or> (?n = 0 \<and> nat cnt = 0)" by linarith
  then have f: "map fst (shuffle_swaps ?n g) = rev [1..<nat cnt]"
    by (auto simp: shuffle_swaps_fst simp del: upt_Suc)
  have b: "\<forall>(i, j) \<in> set (shuffle_swaps ?n g). j \<le> i \<and> i < length xs"
  proof (clarify)
    fix i j assume "(i, j) \<in> set (shuffle_swaps ?n g)"
    from shuffle_swaps_bound [OF this] assms show "j \<le> i \<and> i < length xs" by linarith
  qed
  have l: "length (fst (shuffle_loop ?n g xs)) = length xs" by simp
  have s: "fst (shuffle_loop ?n g xs) = foldl (\<lambda>zs (i, j). swap i j zs) xs (shuffle_swaps ?n g)"
    by (simp add: shuffle_loop_swaps)
  obtain ys g' where eq: "shuffle_loop ?n g xs = (ys, g')"
    by (cases "shuffle_loop ?n g xs")
  with some m l s have "shuffle_symbols xs cnt g = Some (ys, g')" "mset ys = mset xs"
    "length ys = length xs"
    "ys = foldl (\<lambda>zs (i, j). swap i j zs) xs (shuffle_swaps ?n g)"
    by simp_all
  with f b show ?thesis by blast
qed

theorem shuffle_symbols_permutes_witness:
  "nat 6 \<le> length ''AABBCC''
   \<and> map_option fst (shuffle_symbols ''AABBCC'' 6 (\<lambda>k. 7 * k + 3)) = Some ''BCCAAB''
   \<and> shuffle_swaps (nat (6 - 1)) (\<lambda>k. 7 * k + 3) = [(5, 3), (4, 0), (3, 1), (2, 0), (1, 1)]
   \<and> (\<exists>ys g'. shuffle_symbols ''AABBCC'' 6 (\<lambda>k. 7 * k + 3) = Some (ys, g')
         \<and> mset ys = mset ''AABBCC''
         \<and> length ys = length ''AABBCC''
         \<and> ys = foldl (\<lambda>zs (i, j). swap i j zs) ''AABBCC''
                  (shuffle_swaps (nat (6 - 1)) (\<lambda>k. 7 * k + 3))
         \<and> map fst (shuffle_swaps (nat (6 - 1)) (\<lambda>k. 7 * k + 3)) = rev [1..<nat 6]
         \<and> (\<forall>(i, j) \<in> set (shuffle_swaps (nat (6 - 1)) (\<lambda>k. 7 * k + 3)).
               j \<le> i \<and> i < length ''AABBCC''))"
proof -
  have h: "nat 6 \<le> length ''AABBCC''" by simp
  have v: "map_option fst (shuffle_symbols ''AABBCC'' 6 (\<lambda>k. 7 * k + 3)) = Some ''BCCAAB''"
    by code_simp
  have w: "shuffle_swaps (nat (6 - 1)) (\<lambda>k. 7 * k + 3) = [(5, 3), (4, 0), (3, 1), (2, 0), (1, 1)]"
    by code_simp
  from h v w shuffle_symbols_permutes [OF h, of "\<lambda>k. 7 * k + 3"] show ?thesis
    by (intro conjI)
qed

subsection \<open>C5: the move counter\<close>

text \<open>
Claim C5. Whatever the state and the input, one step of the program adds exactly 1 to
  \<open>moves\<close> when the input completes a two-card attempt (the second pick is accepted and is
  not the first pick's cell), and leaves \<open>moves\<close> as it is otherwise: after a rejected pick
  of either slot, after a second pick at the first pick's cell, after Enter, after the clock.
  Whether the two symbols match plays no part. The addition is that of a 32-bit \<^verbatim>\<open>int\<close>.
\<close>

theorem moves_counts_completed_attempts:
  assumes "step R C s e = Some (s', out)"
  shows "moves s' = (if completes_attempt R C s e then moves s + 1 else moves s)"
  using assms
  by (cases "phase s"; cases e)
     (auto simp: step_def completes_attempt_def Let_def split_beta loop_head_def
           split: sum.splits if_splits option.splits)

text \<open>
On the 4 by 4 board, after the pick (1,1), the pick (1,2) completes an attempt (a mismatch).
\<close>

theorem moves_counts_completed_attempts_witness:
  "\<exists>s0 out0 s out s' out'.
     main_start BOARD_ROWS BOARD_COLS (\<lambda>_. CHR ''?'') (\<lambda>_. 0) 0 = Inr (s0, out0)
     \<and> run BOARD_ROWS BOARD_COLS s0 [Pick (Scanned 1 1)] = Some (s, out)
     \<and> step BOARD_ROWS BOARD_COLS s (Pick (Scanned 1 2)) = Some (s', out')
     \<and> completes_attempt BOARD_ROWS BOARD_COLS s (Pick (Scanned 1 2))
     \<and> moves s = 0
     \<and> moves s' = 1"
proof -
  let ?init = "\<lparr>board = map (\<lambda>ch. \<lparr>symbol = ch, revealed = False, matched = False\<rparr>) ''ABBCCDDEEFFGGHHA'',
        pairs_found = 0, moves = 0, start = 0, phase = AwaitingFirstPick\<rparr>"
  let ?iout = "[MsgWelcome 8, MsgBoard [''****'', ''****'', ''****'', ''****''], MsgPickFirst, MsgEnterRowCol]"
  let ?st = "fst (the (run BOARD_ROWS BOARD_COLS ?init [Pick (Scanned 1 1)]))"
  let ?sout = "snd (the (run BOARD_ROWS BOARD_COLS ?init [Pick (Scanned 1 1)]))"
  have a: "main_start BOARD_ROWS BOARD_COLS (\<lambda>_. CHR ''?'') (\<lambda>_. 0) 0 = Inr (?init, ?iout)"
    by (rule main_start_example)
  have b: "run BOARD_ROWS BOARD_COLS ?init [Pick (Scanned 1 1)] = Some (?st, ?sout)"
    by code_simp
  let ?nx = "fst (the (step BOARD_ROWS BOARD_COLS ?st (Pick (Scanned 1 2))))"
  let ?nout = "snd (the (step BOARD_ROWS BOARD_COLS ?st (Pick (Scanned 1 2))))"
  have c: "step BOARD_ROWS BOARD_COLS ?st (Pick (Scanned 1 2)) = Some (?nx, ?nout)"
    by code_simp
  have d: "completes_attempt BOARD_ROWS BOARD_COLS ?st (Pick (Scanned 1 2))"
    by code_simp
  have e: "moves ?st = 0"
    by code_simp
  from moves_counts_completed_attempts [OF c] d e have f: "moves ?nx = 1"
    by simp
  show ?thesis
    apply (rule exI [of _ ?init], rule exI [of _ ?iout])
    apply (rule exI [of _ ?st], rule exI [of _ ?sout])
    apply (rule exI [of _ ?nx], rule exI [of _ ?nout])
    using a b c d e f by (intro conjI)
qed

subsection \<open>C6: a match, and the end of the game\<close>



subsection \<open>C7: a mismatch\<close>

text \<open>
Claim C7. In a state reached from the start where the program waits for the second pick,
  an accepted pick whose symbol differs from the first card's leaves both cells revealed
  while the program waits for Enter (it reads no pick there). After Enter both cells have
  \<open>revealed\<close> clear and \<open>matched\<close> clear, every other cell of the board is what it was before
  the second pick, \<open>moves\<close> has grown by 1, \<open>pairs_found\<close> is unchanged and the program waits
  for a first pick.
\<close>

theorem mismatch_hides_both:
  assumes "main_start R C junk g t0 = Inr (s0, out0)" "run R C s0 evs = Some (s, out)"
    and ph: "phase s = AwaitingSecondPick r1 c1"
    and pk: "pick_card R C (board s) sc = Inr (r2, c2)"
    and neq: "symbol (board s ! (r1 * C + c1)) \<noteq> symbol (board s ! (r2 * C + c2))"
  shows "\<exists>s1 out1 s2 out2.
           step R C s (Pick sc) = Some (s1, out1)
           \<and> phase s1 = AwaitingAck r1 c1 r2 c2
           \<and> revealed (board s1 ! (r1 * C + c1)) \<and> revealed (board s1 ! (r2 * C + c2))
           \<and> (\<forall>sc'. step R C s1 (Pick sc') = None)
           \<and> step R C s1 Ack = Some (s2, out2)
           \<and> \<not> revealed (board s2 ! (r1 * C + c1)) \<and> \<not> revealed (board s2 ! (r2 * C + c2))
           \<and> \<not> matched (board s2 ! (r1 * C + c1)) \<and> \<not> matched (board s2 ! (r2 * C + c2))
           \<and> length (board s2) = length (board s)
           \<and> (\<forall>k < length (board s). k \<noteq> r1 * C + c1 \<longrightarrow> k \<noteq> r2 * C + c2 \<longrightarrow>
                 board s2 ! k = board s ! k)
           \<and> moves s2 = moves s + 1
           \<and> pairs_found s2 = pairs_found s
           \<and> phase s2 = AwaitingFirstPick"
proof -
  note i = reachable_inv [OF assms(1,2)]
  have len: "length (board s) = R * C" and r1: "r1 < R" "c1 < C"
    and op: "open_cells (board s) = {r1 * C + c1}"
    and pf: "pairs_found s < total_pairs R C"
    using i ph by (simp_all add: game_inv_def)
  from pick_card_Inr [OF pk] have r2: "r2 < R" "c2 < C"
    and m2: "\<not> matched (board s ! (r2 * C + c2))" by simp_all
  have lt: "r1 * C + c1 < length (board s)" "r2 * C + c2 < length (board s)"
    using r1 r2 len by (simp_all add: cell_lt)
  have c1: "revealed (board s ! (r1 * C + c1))" "\<not> matched (board s ! (r1 * C + c1))"
    using op by (auto simp: open_cells_def)
  note ne = second_pick_distinct [OF i ph pk]
  let ?b = "set_revealed (r2 * C + c2) True (board s)"
  let ?s1 = "s\<lparr>board := ?b, moves := moves s + 1, phase := AwaitingAck r1 c1 r2 c2\<rparr>"
  let ?h = "?s1\<lparr>board := set_revealed (r2 * C + c2) False
                             (set_revealed (r1 * C + c1) False ?b)\<rparr>"
  let ?s2 = "fst (loop_head R C ?h)"
  have st1: "step R C s (Pick sc) =
      Some (?s1, [MsgBoard (display_board R C ?b), MsgNoMatch, MsgPressEnter])"
    using ph pk ne neq lt by (simp add: step_second nth_set_revealed)
  have ph1: "phase ?s1 = AwaitingAck r1 c1 r2 c2" by simp
  have rv: "revealed (board ?s1 ! (r1 * C + c1))" "revealed (board ?s1 ! (r2 * C + c2))"
    using lt c1 by (simp_all add: nth_set_revealed)
  have blk: "\<forall>sc'. step R C ?s1 (Pick sc') = None"
    by (simp add: step_def)
  have st2: "step R C ?s1 Ack = Some (?s2, snd (loop_head R C ?h))"
    by (simp add: step_ack)
  have hid: "\<not> revealed (board ?s2 ! (r1 * C + c1))" "\<not> revealed (board ?s2 ! (r2 * C + c2))"
    "\<not> matched (board ?s2 ! (r1 * C + c1))" "\<not> matched (board ?s2 ! (r2 * C + c2))"
    using lt c1 m2 by (simp_all add: nth_set_revealed)
  have l2: "length (board ?s2) = length (board s)" by simp
  have oth: "\<forall>k < length (board s). k \<noteq> r1 * C + c1 \<longrightarrow> k \<noteq> r2 * C + c2 \<longrightarrow>
                 board ?s2 ! k = board s ! k"
    by (simp add: nth_set_revealed)
  have rest: "moves ?s2 = moves s + 1" "pairs_found ?s2 = pairs_found s"
    "phase ?s2 = AwaitingFirstPick"
    using pf by (simp_all add: loop_head_def)
  from st1 ph1 rv blk st2 hid l2 oth rest show ?thesis by blast
qed

theorem mismatch_hides_both_witness:
  "\<exists>s0 out0 s out.
     main_start BOARD_ROWS BOARD_COLS (\<lambda>_. CHR ''?'') (\<lambda>_. 0) 0 = Inr (s0, out0)
     \<and> run BOARD_ROWS BOARD_COLS s0 [Pick (Scanned 1 1)] = Some (s, out)
     \<and> phase s = AwaitingSecondPick 0 0
     \<and> pick_card BOARD_ROWS BOARD_COLS (board s) (Scanned 1 2) = Inr (0, 1)
     \<and> symbol (board s ! (0 * BOARD_COLS + 0)) \<noteq> symbol (board s ! (0 * BOARD_COLS + 1))
     \<and> (\<exists>s1 out1 s2 out2.
           step BOARD_ROWS BOARD_COLS s (Pick (Scanned 1 2)) = Some (s1, out1)
           \<and> phase s1 = AwaitingAck 0 0 0 1
           \<and> revealed (board s1 ! (0 * BOARD_COLS + 0)) \<and> revealed (board s1 ! (0 * BOARD_COLS + 1))
           \<and> (\<forall>sc'. step BOARD_ROWS BOARD_COLS s1 (Pick sc') = None)
           \<and> step BOARD_ROWS BOARD_COLS s1 Ack = Some (s2, out2)
           \<and> \<not> revealed (board s2 ! (0 * BOARD_COLS + 0)) \<and> \<not> revealed (board s2 ! (0 * BOARD_COLS + 1))
           \<and> \<not> matched (board s2 ! (0 * BOARD_COLS + 0)) \<and> \<not> matched (board s2 ! (0 * BOARD_COLS + 1))
           \<and> length (board s2) = length (board s)
           \<and> (\<forall>k < length (board s). k \<noteq> 0 * BOARD_COLS + 0 \<longrightarrow> k \<noteq> 0 * BOARD_COLS + 1 \<longrightarrow>
                 board s2 ! k = board s ! k)
           \<and> moves s2 = moves s + 1
           \<and> pairs_found s2 = pairs_found s
           \<and> phase s2 = AwaitingFirstPick)"
proof -
  let ?init = "\<lparr>board = map (\<lambda>ch. \<lparr>symbol = ch, revealed = False, matched = False\<rparr>) ''ABBCCDDEEFFGGHHA'',
        pairs_found = 0, moves = 0, start = 0, phase = AwaitingFirstPick\<rparr>"
  let ?iout = "[MsgWelcome 8, MsgBoard [''****'', ''****'', ''****'', ''****''], MsgPickFirst, MsgEnterRowCol]"
  let ?st = "fst (the (run BOARD_ROWS BOARD_COLS ?init [Pick (Scanned 1 1)]))"
  let ?sout = "snd (the (run BOARD_ROWS BOARD_COLS ?init [Pick (Scanned 1 1)]))"
  have a: "main_start BOARD_ROWS BOARD_COLS (\<lambda>_. CHR ''?'') (\<lambda>_. 0) 0 = Inr (?init, ?iout)"
    by (rule main_start_example)
  have b: "run BOARD_ROWS BOARD_COLS ?init [Pick (Scanned 1 1)] = Some (?st, ?sout)"
    by code_simp
  have c: "phase ?st = AwaitingSecondPick 0 0"
    by code_simp
  have d: "pick_card BOARD_ROWS BOARD_COLS (board ?st) (Scanned 1 2) = Inr (0, 1)"
    by code_simp
  have e: "symbol (board ?st ! (0 * BOARD_COLS + 0)) \<noteq> symbol (board ?st ! (0 * BOARD_COLS + 1))"
    by code_simp
  note f = mismatch_hides_both [OF a b c d e]
  show ?thesis
    apply (rule exI [of _ ?init], rule exI [of _ ?iout])
    apply (rule exI [of _ ?st], rule exI [of _ ?sout])
    using a b c d e f by (intro conjI)
qed

subsection \<open>C8: more pairs than symbols\<close>

text \<open>
Claim C8. The pool has 62 symbols. When \<open>R * C div 2\<close> exceeds that, \<^verbatim>\<open>init_board\<close> returns
  no board: it stops with \<open>ConfigurationError\<close>, whose message is ``not enough unique
  symbols'' and whose exit status is 1. \<^verbatim>\<open>main\<close> then stops with status 1 as well: with this
  error when \<open>R * C\<close> is even, and before \<^verbatim>\<open>init_board\<close>, for the odd cell count, otherwise.
\<close>

theorem init_board_too_many_pairs:
  assumes "length symbol_pool < (R * C) div 2"
  shows "init_board R C junk g = Inl ConfigurationError
         \<and> abort_message ConfigurationError = [MsgNotEnoughSymbols]
         \<and> exit_status ConfigurationError = Some 1
         \<and> length symbol_pool = 62
         \<and> (\<exists>a. main_start R C junk g t0 = Inl a \<and> exit_status a = Some 1
                \<and> (even (R * C) \<longrightarrow> a = ConfigurationError))"
proof -
  have ib: "init_board R C junk g = Inl ConfigurationError"
    using assms by (simp add: init_board_def Let_def)
  have ms: "\<exists>a. main_start R C junk g t0 = Inl a \<and> exit_status a = Some 1
                \<and> (even (R * C) \<longrightarrow> a = ConfigurationError)"
  proof (cases "(R * C) mod 2 = 0")
    case True
    then have "main_start R C junk g t0 = Inl ConfigurationError"
      by (simp only: main_start_def ib) simp
    then show ?thesis by simp
  next
    case False
    then have "main_start R C junk g t0 = Inl OddCellCount"
      by (simp only: main_start_def) simp
    moreover have "odd (R * C)" using False by presburger
    ultimately show ?thesis by simp
  qed
  have "abort_message ConfigurationError = [MsgNotEnoughSymbols]"
    "exit_status ConfigurationError = Some 1" by simp_all
  with ib ms length_symbol_pool show ?thesis by (intro conjI)
qed

text \<open>
A 9 by 14 board needs 63 pairs.
\<close>

theorem init_board_too_many_pairs_witness:
  "length symbol_pool < ((9::nat) * 14) div 2
   \<and> init_board 9 14 (\<lambda>_. CHR ''?'') (\<lambda>_. 0) = Inl ConfigurationError
   \<and> main_start 9 14 (\<lambda>_. CHR ''?'') (\<lambda>_. 0) 0 = Inl ConfigurationError
   \<and> exit_status ConfigurationError = Some 1"
proof -
  have h: "length symbol_pool < ((9::nat) * 14) div 2"
    by (simp add: length_symbol_pool)
  note t = init_board_too_many_pairs [OF h, of "\<lambda>_. CHR ''?''" "\<lambda>_. 0" 0]
  from t have i: "init_board 9 14 (\<lambda>_. CHR ''?'') (\<lambda>_. 0) = Inl ConfigurationError" by (rule conjunct1)
  from t have m: "main_start 9 14 (\<lambda>_. CHR ''?'') (\<lambda>_. 0) 0 = Inl ConfigurationError" by auto
  from t have x: "exit_status ConfigurationError = Some 1" by simp
  from h i m x show ?thesis by (intro conjI)
qed

subsection \<open>C9: symbols never change\<close>

text \<open>
Claim C9. In every state reached from the start by any sequence of inputs, the board has
  its \<open>R * C\<close> cells and every cell holds the symbol \<^verbatim>\<open>init_board\<close> gave it.
\<close>

theorem symbols_never_change:
  assumes "main_start R C junk g t0 = Inr (s0, out0)" "run R C s0 evs = Some (s, out)"
  shows "map symbol (board s) = map symbol (board s0) \<and> length (board s) = R * C"
proof -
  have "game_inv R C s"
    using main_start_inv [OF assms(1)] assms(2) by (rule run_inv)
  then have "length (board s) = R * C" by (simp add: game_inv_def)
  with run_symbols [OF assms(2)] show ?thesis by simp
qed

text \<open>
On the 4 by 4 board, after a match at (1,2), (1,3) and a first pick at (1,1): the flags
  have changed, the symbols have not.
\<close>

theorem symbols_never_change_witness:
  "\<exists>s0 out0 s out.
     main_start BOARD_ROWS BOARD_COLS (\<lambda>_. CHR ''?'') (\<lambda>_. 0) 0 = Inr (s0, out0)
     \<and> run BOARD_ROWS BOARD_COLS s0 [Pick (Scanned 1 2), Pick (Scanned 1 3), Pick (Scanned 1 1)] = Some (s, out)
     \<and> board s \<noteq> board s0
     \<and> map symbol (board s0) = ''ABBCCDDEEFFGGHHA''
     \<and> map symbol (board s) = map symbol (board s0)
     \<and> length (board s) = BOARD_ROWS * BOARD_COLS"
proof -
  let ?init = "\<lparr>board = map (\<lambda>ch. \<lparr>symbol = ch, revealed = False, matched = False\<rparr>) ''ABBCCDDEEFFGGHHA'',
        pairs_found = 0, moves = 0, start = 0, phase = AwaitingFirstPick\<rparr>"
  let ?iout = "[MsgWelcome 8, MsgBoard [''****'', ''****'', ''****'', ''****''], MsgPickFirst, MsgEnterRowCol]"
  let ?st = "fst (the (run BOARD_ROWS BOARD_COLS ?init [Pick (Scanned 1 2), Pick (Scanned 1 3), Pick (Scanned 1 1)]))"
  let ?sout = "snd (the (run BOARD_ROWS BOARD_COLS ?init [Pick (Scanned 1 2), Pick (Scanned 1 3), Pick (Scanned 1 1)]))"
  have a: "main_start BOARD_ROWS BOARD_COLS (\<lambda>_. CHR ''?'') (\<lambda>_. 0) 0 = Inr (?init, ?iout)"
    by (rule main_start_example)
  have b: "run BOARD_ROWS BOARD_COLS ?init [Pick (Scanned 1 2), Pick (Scanned 1 3), Pick (Scanned 1 1)] = Some (?st, ?sout)"
    by code_simp
  have c: "board ?st \<noteq> board ?init"
    by code_simp
  have d: "map symbol (board ?init) = ''ABBCCDDEEFFGGHHA''"
    by code_simp
  note e = symbols_never_change [OF a b]
  show ?thesis
    apply (rule exI [of _ ?init], rule exI [of _ ?iout])
    apply (rule exI [of _ ?st], rule exI [of _ ?sout])
    using a b c d e [THEN conjunct1] e [THEN conjunct2] by (intro conjI)
qed

subsection \<open>C10: matched cells are revealed\<close>

text \<open>
Claim C10. In every state reached from the start by any sequence of inputs, every cell
  with \<open>matched\<close> set also has \<open>revealed\<close> set.
\<close>

theorem matched_cells_stay_revealed:
  assumes "main_start R C junk g t0 = Inr (s0, out0)" "run R C s0 evs = Some (s, out)"
  shows "\<forall>x \<in> set (board s). matched x \<longrightarrow> revealed x"
proof -
  have "game_inv R C s"
    using main_start_inv [OF assms(1)] assms(2) by (rule run_inv)
  then have "matched_shown (board s)" by (simp add: game_inv_def)
  then show ?thesis by (auto simp: matched_shown_def in_set_conv_nth)
qed

text \<open>
On the 4 by 4 board, after a match at (1,2), (1,3) and a first pick at (1,1).
\<close>

theorem matched_cells_stay_revealed_witness:
  "\<exists>s0 out0 s out.
     main_start BOARD_ROWS BOARD_COLS (\<lambda>_. CHR ''?'') (\<lambda>_. 0) 0 = Inr (s0, out0)
     \<and> run BOARD_ROWS BOARD_COLS s0 [Pick (Scanned 1 2), Pick (Scanned 1 3), Pick (Scanned 1 1)] = Some (s, out)
     \<and> matched (board s ! 1)
     \<and> matched (board s ! 2)
     \<and> (\<forall>x \<in> set (board s). matched x \<longrightarrow> revealed x)"
proof -
  let ?init = "\<lparr>board = map (\<lambda>ch. \<lparr>symbol = ch, revealed = False, matched = False\<rparr>) ''ABBCCDDEEFFGGHHA'',
        pairs_found = 0, moves = 0, start = 0, phase = AwaitingFirstPick\<rparr>"
  let ?iout = "[MsgWelcome 8, MsgBoard [''****'', ''****'', ''****'', ''****''], MsgPickFirst, MsgEnterRowCol]"
  let ?st = "fst (the (run BOARD_ROWS BOARD_COLS ?init [Pick (Scanned 1 2), Pick (Scanned 1 3), Pick (Scanned 1 1)]))"
  let ?sout = "snd (the (run BOARD_ROWS BOARD_COLS ?init [Pick (Scanned 1 2), Pick (Scanned 1 3), Pick (Scanned 1 1)]))"
  have a: "main_start BOARD_ROWS BOARD_COLS (\<lambda>_. CHR ''?'') (\<lambda>_. 0) 0 = Inr (?init, ?iout)"
    by (rule main_start_example)
  have b: "run BOARD_ROWS BOARD_COLS ?init [Pick (Scanned 1 2), Pick (Scanned 1 3), Pick (Scanned 1 1)] = Some (?st, ?sout)"
    by code_simp
  have c: "matched (board ?st ! 1)" and d: "matched (board ?st ! 2)"
    by code_simp+
  note e = matched_cells_stay_revealed [OF a b]
  show ?thesis
    apply (rule exI [of _ ?init], rule exI [of _ ?iout])
    apply (rule exI [of _ ?st], rule exI [of _ ?sout])
    using a b c d e by (intro conjI)
qed

end
